theory Spec2Isabelle
  imports Main "HOL-Library.Multiset"
begin

section \<open>Syntax trees of compilation units\<close>

text \<open>
  The part of \<^verbatim>\<open>go/ast\<close> that the analyzer looks at. \<open>Ident\<close>, \<open>SelectorExpr\<close>,
  \<open>CallExpr\<close>, \<open>StarExpr\<close>, \<open>StructType\<close> and \<open>InterfaceType\<close> are the node types the
  source's type switches name; \<open>OtherNode\<close> is any other node (a statement, a literal, an
  index expression, a function literal, ...) with its children in the order in which
  \<^verbatim>\<open>ast.Inspect\<close> visits them. Of a \<open>SelectorExpr\<close> the model keeps \<^verbatim>\<open>X\<close> and
  \<^verbatim>\<open>Sel.Name\<close>, of a \<open>CallExpr\<close> \<^verbatim>\<open>Fun\<close> and \<^verbatim>\<open>Args\<close>.
\<close>

datatype Node =
    Ident string
  | SelectorExpr Node string
  | CallExpr Node "Node list"
  | StarExpr Node
  | StructType "Node list"
  | InterfaceType "Node list"
  | OtherNode "Node list"

text \<open>
  \<^verbatim>\<open>ast.FuncDecl\<close>: \<open>Recv\<close> is \<open>None\<close> for a nil receiver list and otherwise the types
  of the receiver fields (\<^verbatim>\<open>Recv.List[i].Type\<close>); \<open>FuncName\<close> is \<^verbatim>\<open>Name.Name\<close>; \<open>FuncType\<close>
  holds the nodes of the signature and \<open>Body\<close> the statements of the body. Go has no
  nested function declarations: a \<open>FuncDecl\<close> occurs only in \<^verbatim>\<open>File.Decls\<close>.
\<close>

datatype FuncDecl =
  FuncDecl (Recv: "Node list option") (FuncName: string) (FuncType: "Node list") (Body: "Node list")

text \<open>
  The specs of a \<^verbatim>\<open>GenDecl\<close>: a \<open>TypeSpec\<close> with \<^verbatim>\<open>Name.Name\<close>, the nodes of
  \<^verbatim>\<open>TypeParams\<close> and \<^verbatim>\<open>Type\<close>, a \<open>ValueSpec\<close> (\<^verbatim>\<open>var\<close>, \<^verbatim>\<open>const\<close>) with its type and
  initialiser nodes, and an import spec, which has nothing below it that the analyzer
  reacts to.
\<close>

datatype Spec = TypeSpec string "Node list" Node | ValueSpec "Node list" | ImportDecl

datatype Decl = FuncD FuncDecl | GenDecl "Spec list"

text \<open>
  An entry of \<^verbatim>\<open>File.Imports\<close>: the local name, when the import gives one, and
  \<^verbatim>\<open>Path.Value\<close>, the path literal with its quotes.
\<close>

record ImportSpec =
  ImportName :: "string option"
  PathValue :: string

record File =
  PkgName :: string
  Decls :: "Decl list"
  Imports :: "ImportSpec list"

text \<open>
  A Go file met by the directory walk. \<open>relPath\<close> is its path relative to the repository
  root and \<open>dir\<close> the directory part of that path: the value of
  \<^verbatim>\<open>filepath.Dir(relPath)\<close> in \<^verbatim>\<open>processGoFile\<close> and of
  \<^verbatim>\<open>filepath.Rel(repoPath, filepath.Dir(path))\<close> in \<^verbatim>\<open>analyzeFunctionCalls\<close>, two
  standard-library expressions for the same directory. \<open>parsed\<close> is the result of
  \<^verbatim>\<open>parser.ParseFile\<close>: \<open>None\<close> when it returns an error.
\<close>

record Unit =
  relPath :: string
  dir :: string
  parsed :: "File option"

section \<open>Code nodes, the heap and the registry\<close>

text \<open>
  \<^verbatim>\<open>CodeNode\<close> values are shared through pointers (\<^verbatim>\<open>Children\<close>, \<^verbatim>\<open>CalledBy\<close>,
  \<^verbatim>\<open>Calls\<close>, the values of \<^verbatim>\<open>allNodes\<close>) and compared by pointer, so the model has an
  explicit heap: a list of nodes in which a pointer is an index, and \<^verbatim>\<open>&CodeNode{...}\<close>
  appends to the list. Every address the model reads comes from an allocation, so it is an
  index of the heap; \<open>graphInv\<close> below records this for the registry and the edges.
\<close>

record CodeNode =
  Name :: string
  Type :: string
  FilePath :: string
  Children :: "nat list"
  CalledBy :: "nat list"
  Calls :: "nat list"
  Implements :: string
  Receiver :: string

text \<open>
  The state of a run: the heap, the global \<^verbatim>\<open>allNodes\<close>, the map \<^verbatim>\<open>packages\<close> of
  \<^verbatim>\<open>buildProjectStructure\<close> and the map \<^verbatim>\<open>callCounts\<close> of \<^verbatim>\<open>analyzeFunctionCalls\<close>.
  Counts are natural numbers: a count only grows by one per call expression, and Go's
  64-bit \<^verbatim>\<open>int\<close> does not overflow on any source tree that fits in memory.
\<close>

record State =
  heap :: "CodeNode list"
  allNodes :: "string \<rightharpoonup> nat"
  packages :: "string \<rightharpoonup> nat"
  callCounts :: "string \<rightharpoonup> nat"

definition newNode :: "string \<Rightarrow> string \<Rightarrow> string \<Rightarrow> CodeNode" where
  "newNode n t p =
     \<lparr>Name = n, Type = t, FilePath = p, Children = [], CalledBy = [], Calls = [],
      Implements = [], Receiver = []\<rparr>"

definition alloc :: "CodeNode \<Rightarrow> State \<Rightarrow> nat \<times> State" where
  "alloc n s = (length (heap s), s\<lparr>heap := heap s @ [n]\<rparr>)"

text \<open>\<^verbatim>\<open>parent.Children = append(parent.Children, child)\<close>.\<close>

definition appendChild :: "nat \<Rightarrow> nat \<Rightarrow> State \<Rightarrow> State" where
  "appendChild parent child s =
     s\<lparr>heap := (heap s)[parent := (heap s ! parent)\<lparr>Children := Children (heap s ! parent) @ [child]\<rparr>]\<rparr>"

text \<open>
  \<^verbatim>\<open>main\<close> makes \<^verbatim>\<open>allNodes\<close> empty and \<^verbatim>\<open>buildProjectStructure\<close> allocates the
  repository node \<^verbatim>\<open>codeRoot\<close>, which gets address 0.
\<close>

definition initState :: "string \<Rightarrow> State" where
  "initState repoName =
     \<lparr>heap = [newNode repoName ''repository'' []], allNodes = Map.empty,
      packages = Map.empty, callCounts = Map.empty\<rparr>"

definition codeRoot :: nat where
  "codeRoot = 0"

section \<open>Extraction: processGoFile\<close>

text \<open>
  \<^verbatim>\<open>processFunction\<close>: a node of type \<^verbatim>\<open>function\<close>, or \<^verbatim>\<open>method\<close> when the declaration
  has a non-empty receiver list; \<^verbatim>\<open>Receiver\<close> is set from a receiver type \<^verbatim>\<open>*T\<close> or
  \<^verbatim>\<open>T\<close> with \<^verbatim>\<open>T\<close> an identifier and keeps its zero value otherwise.
\<close>

definition processFunction :: "FuncDecl \<Rightarrow> string \<Rightarrow> CodeNode" where
  "processFunction funcDecl rel =
     (let functionNode = newNode (FuncName funcDecl) ''function'' rel in
      case Recv funcDecl of
        None \<Rightarrow> functionNode
      | Some [] \<Rightarrow> functionNode
      | Some (t # ts) \<Rightarrow>
          (case t of
             StarExpr x \<Rightarrow>
               (case x of
                  Ident n \<Rightarrow> functionNode\<lparr>Type := ''method'', Receiver := n\<rparr>
                | _ \<Rightarrow> functionNode\<lparr>Type := ''method''\<rparr>)
           | Ident n \<Rightarrow> functionNode\<lparr>Type := ''method'', Receiver := n\<rparr>
           | _ \<Rightarrow> functionNode\<lparr>Type := ''method''\<rparr>))"

definition processType :: "string \<Rightarrow> Node \<Rightarrow> string \<Rightarrow> CodeNode" where
  "processType name ty rel =
     (let typeKind = (case ty of
                        StructType fs \<Rightarrow> ''struct''
                      | InterfaceType ms \<Rightarrow> ''interface''
                      | _ \<Rightarrow> ''type'')
      in newNode name typeKind rel)"

text \<open>
  The \<^verbatim>\<open>*ast.FuncDecl\<close> case of the loop in \<^verbatim>\<open>processGoFile\<close>: the new node becomes a
  child of the package node and is stored in \<^verbatim>\<open>allNodes\<close> under its key by a plain map
  assignment. \<^verbatim>\<open>processFunction\<close> never returns nil, so the nil test always passes.
\<close>

definition registerFunction :: "string \<Rightarrow> nat \<Rightarrow> string \<Rightarrow> FuncDecl \<Rightarrow> State \<Rightarrow> State" where
  "registerFunction packageKey packageNode rel funcDecl s =
     (let (functionNode, s1) = alloc (processFunction funcDecl rel) s;
          s2 = appendChild packageNode functionNode s1;
          fn = heap s2 ! functionNode;
          nodeName = (if Receiver fn \<noteq> []
                      then packageKey @ '':'' @ Receiver fn @ ''.'' @ Name fn
                      else packageKey @ '':'' @ Name fn)
      in s2\<lparr>allNodes := (allNodes s2)(nodeName \<mapsto> functionNode)\<rparr>)"

text \<open>The \<^verbatim>\<open>*ast.TypeSpec\<close> case of the inner loop over the specs of a \<^verbatim>\<open>GenDecl\<close>.\<close>

definition registerType :: "string \<Rightarrow> nat \<Rightarrow> string \<Rightarrow> string \<Rightarrow> Node \<Rightarrow> State \<Rightarrow> State" where
  "registerType packageKey packageNode rel name ty s =
     (let (typeNode, s1) = alloc (processType name ty rel) s;
          s2 = appendChild packageNode typeNode s1;
          nodeName = packageKey @ '':'' @ Name (heap s2 ! typeNode)
      in s2\<lparr>allNodes := (allNodes s2)(nodeName \<mapsto> typeNode)\<rparr>)"

fun processSpec :: "string \<Rightarrow> nat \<Rightarrow> string \<Rightarrow> Spec \<Rightarrow> State \<Rightarrow> State" where
  "processSpec packageKey packageNode rel (TypeSpec name tparams ty) s =
     registerType packageKey packageNode rel name ty s"
| "processSpec packageKey packageNode rel (ValueSpec vs) s = s"
| "processSpec packageKey packageNode rel ImportDecl s = s"

fun processDecl :: "string \<Rightarrow> nat \<Rightarrow> string \<Rightarrow> Decl \<Rightarrow> State \<Rightarrow> State" where
  "processDecl packageKey packageNode rel (FuncD d) s =
     registerFunction packageKey packageNode rel d s"
| "processDecl packageKey packageNode rel (GenDecl specs) s =
     fold (processSpec packageKey packageNode rel) specs s"

text \<open>
  The package node of the file: the one in \<^verbatim>\<open>packages\<close> under the package key, or a new
  one, which is stored there and appended to the children of \<^verbatim>\<open>codeRoot\<close>.
\<close>

definition packageNodeOf :: "string \<Rightarrow> string \<Rightarrow> string \<Rightarrow> State \<Rightarrow> nat \<times> State" where
  "packageNodeOf packageKey packageName packagePath s =
     (case packages s packageKey of
        Some existingNode \<Rightarrow> (existingNode, s)
      | None \<Rightarrow>
          (let (packageNode, s1) = alloc (newNode packageName ''package'' packagePath) s;
               s2 = s1\<lparr>packages := (packages s1)(packageKey \<mapsto> packageNode)\<rparr>
           in (packageNode, appendChild codeRoot packageNode s2)))"

definition processGoFile :: "Unit \<Rightarrow> State \<Rightarrow> State" where
  "processGoFile u s =
     (case parsed u of
        None \<Rightarrow> s
      | Some file \<Rightarrow>
          (let packageName = PkgName file;
               packagePath = dir u;
               packageKey = packagePath @ '':'' @ packageName;
               (packageNode, s1) = packageNodeOf packageKey packageName packagePath s
           in fold (processDecl packageKey packageNode (relPath u)) (Decls file) s1))"

text \<open>
  A declaration that \<^verbatim>\<open>processGoFile\<close> registers: a function declaration, or a type spec
  of a \<^verbatim>\<open>GenDecl\<close>. \<open>asDecl\<close> is the declaration as it stands in \<^verbatim>\<open>File.Decls\<close>,
  \<open>nodeOf\<close> the node that is created for it and \<open>keyOf\<close> the \<^verbatim>\<open>nodeName\<close> under which the
  node is stored in \<^verbatim>\<open>allNodes\<close>.
\<close>

datatype Declaration = FuncDeclaration FuncDecl | TypeDeclaration string "Node list" Node

fun asDecl :: "Declaration \<Rightarrow> Decl" where
  "asDecl (FuncDeclaration d) = FuncD d"
| "asDecl (TypeDeclaration name tparams ty) = GenDecl [TypeSpec name tparams ty]"

fun nodeOf :: "Declaration \<Rightarrow> string \<Rightarrow> CodeNode" where
  "nodeOf (FuncDeclaration d) rel = processFunction d rel"
| "nodeOf (TypeDeclaration name tparams ty) rel = processType name ty rel"

fun keyOf :: "string \<Rightarrow> string \<Rightarrow> Declaration \<Rightarrow> string" where
  "keyOf packageKey rel (FuncDeclaration d) =
     (let fn = processFunction d rel in
      if Receiver fn \<noteq> []
      then packageKey @ '':'' @ Receiver fn @ ''.'' @ Name fn
      else packageKey @ '':'' @ Name fn)"
| "keyOf packageKey rel (TypeDeclaration name tparams ty) =
     packageKey @ '':'' @ Name (processType name ty rel)"

text \<open>The walk of \<^verbatim>\<open>buildProjectStructure\<close> over the Go files, in the order of the walk.\<close>

definition buildProjectStructure :: "Unit list \<Rightarrow> State \<Rightarrow> State" where
  "buildProjectStructure units s = fold processGoFile units s"

section \<open>Resolution: analyzeFunctionCalls\<close>

text \<open>
  \<^verbatim>\<open>strings.Split(s, sep)\<close> for a one-character separator: the pieces of \<open>s\<close> between the
  occurrences of the separator. The result is never empty: splitting the empty string
  gives one empty piece.
\<close>

fun split_sep :: "char \<Rightarrow> string \<Rightarrow> string list" where
  "split_sep c [] = [[]]"
| "split_sep c (x # xs) =
     (if x = c then [] # split_sep c xs
      else (case split_sep c xs of
              [] \<Rightarrow> [[x]]
            | w # ws \<Rightarrow> (x # w) # ws))"

text \<open>\<^verbatim>\<open>strings.Trim(s, "\"")\<close>: the double quotes at both ends are removed.\<close>

definition trimQuotes :: "string \<Rightarrow> string" where
  "trimQuotes s =
     rev (dropWhile (\<lambda>c. c = CHR 0x22) (rev (dropWhile (\<lambda>c. c = CHR 0x22) s)))"

text \<open>
  One round of the loop of \<^verbatim>\<open>buildImportMap\<close>. \<^verbatim>\<open>strings.Split\<close> returns at least one
  piece, so the last piece exists.
\<close>

definition addImport :: "ImportSpec \<Rightarrow> (string \<rightharpoonup> string) \<Rightarrow> (string \<rightharpoonup> string)" where
  "addImport imp importMap =
     (let importPath = trimQuotes (PathValue imp);
          importName = (case ImportName imp of
                          Some n \<Rightarrow> n
                        | None \<Rightarrow> last (split_sep CHR ''/'' importPath))
      in importMap(importName \<mapsto> importPath))"

definition buildImportMap :: "File \<Rightarrow> (string \<rightharpoonup> string)" where
  "buildImportMap file = fold addImport (Imports file) Map.empty"

fun getReceiverTypeName :: "Node \<Rightarrow> string" where
  "getReceiverTypeName (StarExpr (Ident n)) = n"
| "getReceiverTypeName (Ident n) = n"
| "getReceiverTypeName _ = []"

definition buildFunctionKey :: "string \<Rightarrow> FuncDecl \<Rightarrow> string" where
  "buildFunctionKey packageKey funcDecl =
     (case Recv funcDecl of
        Some (t # ts) \<Rightarrow>
          (let receiverName = getReceiverTypeName t in
           if receiverName \<noteq> []
           then packageKey @ '':'' @ receiverName @ ''.'' @ FuncName funcDecl
           else packageKey @ '':'' @ FuncName funcDecl)
      | _ \<Rightarrow> packageKey @ '':'' @ FuncName funcDecl)"

text \<open>
  \<^verbatim>\<open>resolveCallExpr\<close>, applied to \<^verbatim>\<open>callExpr.Fun\<close>, the only part of the call expression
  it reads. The empty string is the source's "unknown call type".
\<close>

fun resolveCallExpr :: "Node \<Rightarrow> string \<Rightarrow> (string \<rightharpoonup> string) \<Rightarrow> string" where
  "resolveCallExpr (Ident name) packageKey importMap = packageKey @ '':'' @ name"
| "resolveCallExpr (SelectorExpr (Ident x) sel) packageKey importMap =
     (case importMap x of
        Some importPath \<Rightarrow> importPath @ '':'' @ sel
      | None \<Rightarrow> packageKey @ '':'' @ x @ ''.'' @ sel)"
| "resolveCallExpr _ packageKey importMap = []"

text \<open>\<^verbatim>\<open>functionCallExists\<close>: a linear scan of the caller's \<^verbatim>\<open>Calls\<close> by pointer.\<close>

definition functionCallExists :: "CodeNode list \<Rightarrow> nat \<Rightarrow> nat \<Rightarrow> bool" where
  "functionCallExists h caller callee = (callee \<in> set (Calls (h ! caller)))"

text \<open>
  The block "Establish the relationship between functions" of \<^verbatim>\<open>analyzeFunctionCalls\<close>
  (the source has no function for it): both keys are looked up in \<^verbatim>\<open>allNodes\<close>; when both
  are there and the caller does not call the callee yet, the callee is appended to the
  caller's \<^verbatim>\<open>Calls\<close> and then the caller to the callee's \<^verbatim>\<open>CalledBy\<close>.
\<close>

definition addEdge :: "string \<Rightarrow> string \<Rightarrow> State \<Rightarrow> State" where
  "addEdge currentFuncKey calledFuncKey s =
     (case allNodes s currentFuncKey of
        None \<Rightarrow> s
      | Some currentNode \<Rightarrow>
          (case allNodes s calledFuncKey of
             None \<Rightarrow> s
           | Some calledNode \<Rightarrow>
               if functionCallExists (heap s) currentNode calledNode then s
               else
                 (let h1 = (heap s)[currentNode :=
                            (heap s ! currentNode)\<lparr>Calls := Calls (heap s ! currentNode) @ [calledNode]\<rparr>];
                      h2 = h1[calledNode :=
                            (h1 ! calledNode)\<lparr>CalledBy := CalledBy (h1 ! calledNode) @ [currentNode]\<rparr>]
                  in s\<lparr>heap := h2\<rparr>)))"

text \<open>\<^verbatim>\<open>callCounts[calledFuncKey]++\<close>: a missing key counts as zero.\<close>

definition increment :: "string \<Rightarrow> (string \<rightharpoonup> nat) \<Rightarrow> (string \<rightharpoonup> nat)" where
  "increment k m = m(k \<mapsto> (case m k of None \<Rightarrow> 1 | Some c \<Rightarrow> c + 1))"

text \<open>
  The \<^verbatim>\<open>*ast.CallExpr\<close> case of the function given to \<^verbatim>\<open>ast.Inspect\<close>; \<open>fn\<close> is
  \<^verbatim>\<open>node.Fun\<close>. \<open>currentFunc\<close> is \<open>None\<close> while the variable is nil.
\<close>

definition visitCallExpr ::
  "string \<Rightarrow> (string \<rightharpoonup> string) \<Rightarrow> FuncDecl option \<Rightarrow> string \<Rightarrow> Node \<Rightarrow> State \<Rightarrow> State" where
  "visitCallExpr packageKey importMap currentFunc currentFuncKey fn s =
     (if currentFunc = None then s
      else
        (let calledFuncKey = resolveCallExpr fn packageKey importMap in
         if calledFuncKey \<noteq> []
         then addEdge currentFuncKey calledFuncKey
                (s\<lparr>callCounts := increment calledFuncKey (callCounts s)\<rparr>)
         else s))"

text \<open>
  \<^verbatim>\<open>ast.Inspect\<close> below a node other than a \<^verbatim>\<open>FuncDecl\<close>: depth first, a node before its
  children, the children in order. The visiting function always returns true, so nothing is
  pruned. Only a \<open>CallExpr\<close> makes it act; \<open>currentFunc\<close> and \<open>currentFuncKey\<close> do not
  change below such a node.
\<close>

fun inspectNode ::
  "string \<Rightarrow> (string \<rightharpoonup> string) \<Rightarrow> FuncDecl option \<Rightarrow> string \<Rightarrow> Node \<Rightarrow> State \<Rightarrow> State" where
  "inspectNode pk im cf ck (Ident n) s = s"
| "inspectNode pk im cf ck (SelectorExpr x sel) s = inspectNode pk im cf ck x s"
| "inspectNode pk im cf ck (CallExpr fn args) s =
     fold (inspectNode pk im cf ck) args
       (inspectNode pk im cf ck fn (visitCallExpr pk im cf ck fn s))"
| "inspectNode pk im cf ck (StarExpr x) s = inspectNode pk im cf ck x s"
| "inspectNode pk im cf ck (StructType ns) s = fold (inspectNode pk im cf ck) ns s"
| "inspectNode pk im cf ck (InterfaceType ns) s = fold (inspectNode pk im cf ck) ns s"
| "inspectNode pk im cf ck (OtherNode ns) s = fold (inspectNode pk im cf ck) ns s"

fun inspectSpec ::
  "string \<Rightarrow> (string \<rightharpoonup> string) \<Rightarrow> FuncDecl option \<Rightarrow> string \<Rightarrow> Spec \<Rightarrow> State \<Rightarrow> State" where
  "inspectSpec pk im cf ck (TypeSpec name tparams ty) s =
     inspectNode pk im cf ck ty (fold (inspectNode pk im cf ck) tparams s)"
| "inspectSpec pk im cf ck (ValueSpec vs) s = fold (inspectNode pk im cf ck) vs s"
| "inspectSpec pk im cf ck ImportDecl s = s"

text \<open>
  The local variables \<^verbatim>\<open>currentFunc\<close> and \<^verbatim>\<open>currentFuncKey\<close> of the walk of one file,
  together with the state.
\<close>

record Walk =
  currentFunc :: "FuncDecl option"
  currentFuncKey :: string
  st :: State

text \<open>
  \<^verbatim>\<open>ast.Inspect\<close> at a declaration of the file. The \<^verbatim>\<open>*ast.FuncDecl\<close> case assigns
  \<^verbatim>\<open>currentFunc\<close> and \<^verbatim>\<open>currentFuncKey\<close> and the walk goes on below the declaration:
  receiver, signature, body. Nothing assigns the two variables when the walk leaves the
  declaration.
\<close>

fun inspectDecl :: "string \<Rightarrow> (string \<rightharpoonup> string) \<Rightarrow> Decl \<Rightarrow> Walk \<Rightarrow> Walk" where
  "inspectDecl pk im (FuncD d) w =
     (let cf = Some d;
          ck = buildFunctionKey pk d;
          below = (case Recv d of None \<Rightarrow> [] | Some ts \<Rightarrow> ts) @ FuncType d @ Body d
      in \<lparr>currentFunc = cf, currentFuncKey = ck,
          st = fold (inspectNode pk im cf ck) below (st w)\<rparr>)"
| "inspectDecl pk im (GenDecl specs) w =
     w\<lparr>st := fold (inspectSpec pk im (currentFunc w) (currentFuncKey w)) specs (st w)\<rparr>"

text \<open>
  The part of the walk function of \<^verbatim>\<open>analyzeFunctionCalls\<close> that handles one Go file: a
  file that does not parse is skipped; otherwise the declarations are inspected in order,
  starting with \<^verbatim>\<open>currentFunc\<close> nil and \<^verbatim>\<open>currentFuncKey\<close> empty.
\<close>

definition analyzeFile :: "Unit \<Rightarrow> State \<Rightarrow> State" where
  "analyzeFile u s =
     (case parsed u of
        None \<Rightarrow> s
      | Some file \<Rightarrow>
          (let packageName = PkgName file;
               packagePath = dir u;
               packageKey = packagePath @ '':'' @ packageName;
               importMap = buildImportMap file
           in st (fold (inspectDecl packageKey importMap) (Decls file)
                    \<lparr>currentFunc = None, currentFuncKey = [], st = s\<rparr>)))"

definition analyzeFunctionCalls :: "Unit list \<Rightarrow> State \<Rightarrow> State" where
  "analyzeFunctionCalls units s = fold analyzeFile units s"

text \<open>
  The analysis part of \<^verbatim>\<open>main\<close>: the structure is built from all files, then the calls
  of all files are analysed. The two walks skip the same directories below the root, but
  only the walk of \<^verbatim>\<open>analyzeFunctionCalls\<close> applies the test for \<^verbatim>\<open>vendor\<close> and
  \<^verbatim>\<open>.git\<close> to the root directory as well: when the repository directory itself has one
  of these names, that walk stops at once and sees no file.
\<close>

definition analyze :: "string \<Rightarrow> Unit list \<Rightarrow> State" where
  "analyze repoName units =
     analyzeFunctionCalls
       (if repoName = ''vendor'' \<or> repoName = ''.git'' then [] else units)
       (buildProjectStructure units (initState repoName))"

text \<open>
  Extraction and resolution steps in any order, for the properties that are to hold after
  any sequence of them.
\<close>

datatype Op = Extract Unit | Resolve Unit

fun step :: "Op \<Rightarrow> State \<Rightarrow> State" where
  "step (Extract u) s = processGoFile u s"
| "step (Resolve u) s = analyzeFile u s"

definition runOps :: "Op list \<Rightarrow> State \<Rightarrow> State" where
  "runOps ops s = fold step ops s"

section \<open>The table of the most called functions\<close>

text \<open>
  \<^verbatim>\<open>for funcKey, count := range callCounts\<close> appends one entry per key of the map. Go
  leaves the iteration order of a map unspecified and varies it from one run to the next:
  \<open>order\<close> is the order in which this run produces the keys.
\<close>

definition rangeMap :: "string list \<Rightarrow> (string \<rightharpoonup> nat) \<Rightarrow> (string \<times> nat) list" where
  "rangeMap order m = List.map_filter (\<lambda>k. map_option (Pair k) (m k)) order"

text \<open>An order in which a map can be iterated: every key once.\<close>

definition iterationOf :: "string list \<Rightarrow> (string \<rightharpoonup> nat) \<Rightarrow> bool" where
  "iterationOf order m = (distinct order \<and> set order = dom m)"

text \<open>
  The comparison given to \<^verbatim>\<open>sort.Slice\<close>:
  \<^verbatim>\<open>mostCalled[i].Count > mostCalled[j].Count\<close>.
\<close>

definition lessCount :: "string \<times> nat \<Rightarrow> string \<times> nat \<Rightarrow> bool" where
  "lessCount x y = (snd x > snd y)"

text \<open>
  \<^verbatim>\<open>sort.Slice\<close> belongs to the standard library. Its documentation promises a
  permutation of the slice in which no element is less than an earlier one, and says that
  the sort is not guaranteed to be stable. The sort is a parameter \<open>srt\<close> of the model,
  and this is what is known of it.
\<close>

definition sortSliceContract :: "((string \<times> nat) list \<Rightarrow> (string \<times> nat) list) \<Rightarrow> bool" where
  "sortSliceContract srt =
     (\<forall>xs. mset (srt xs) = mset xs \<and> sorted_wrt (\<lambda>x y. \<not> lessCount y x) (srt xs))"

text \<open>
  One sort that keeps the contract: insertion sort in which an element moves left only
  past elements it is less than, as the library runs it on short slices. It is stable.
\<close>

fun insertLess :: "string \<times> nat \<Rightarrow> (string \<times> nat) list \<Rightarrow> (string \<times> nat) list" where
  "insertLess x [] = [x]"
| "insertLess x (y # ys) = (if lessCount x y then x # y # ys else y # insertLess x ys)"

definition insertionSort :: "(string \<times> nat) list \<Rightarrow> (string \<times> nat) list" where
  "insertionSort xs = foldl (\<lambda>sorted x. insertLess x sorted) [] xs"

text \<open>The slice \<^verbatim>\<open>mostCalled\<close> after \<^verbatim>\<open>sort.Slice\<close>.\<close>

definition mostCalled ::
  "((string \<times> nat) list \<Rightarrow> (string \<times> nat) list) \<Rightarrow> string list \<Rightarrow> (string \<rightharpoonup> nat) \<Rightarrow> (string \<times> nat) list" where
  "mostCalled srt order counts = srt (rangeMap order counts)"

text \<open>
  The rows that \<^verbatim>\<open>addMostCalledFunctionsToOutput\<close> writes, as tuples of the four columns:
  one row for each entry of \<^verbatim>\<open>mostCalled\<close> whose key is in \<^verbatim>\<open>allNodes\<close>.
\<close>

definition displayName :: "CodeNode \<Rightarrow> string" where
  "displayName node =
     (if Type node = ''method'' then ''('' @ Receiver node @ '') '' @ Name node else Name node)"

text \<open>The body of the last loop for one entry \<open>fn\<close>: a row, or nothing when the key has no node.\<close>

definition tableRow :: "State \<Rightarrow> string \<times> nat \<Rightarrow> (string \<times> string \<times> string \<times> nat) option" where
  "tableRow s fn =
     (case allNodes s (fst fn) of
        None \<Rightarrow> None
      | Some a \<Rightarrow>
          (let node = heap s ! a in
           Some (displayName node, Type node, FilePath node, snd fn)))"

definition addMostCalledFunctionsToOutput ::
  "((string \<times> nat) list \<Rightarrow> (string \<times> nat) list) \<Rightarrow> string list \<Rightarrow> State
     \<Rightarrow> (string \<times> string \<times> string \<times> nat) list" where
  "addMostCalledFunctionsToOutput srt order s =
     List.map_filter (tableRow s) (mostCalled srt order (callCounts s))"

section \<open>Directory tree (TreeNode, addNodeToTree)\<close>








section \<open>Invariants of the call graph\<close>

text \<open>
  The lists \<open>cs\<close> of all nodes' \<^verbatim>\<open>Calls\<close> and \<open>bs\<close> of all nodes' \<^verbatim>\<open>CalledBy\<close>, by
  address: a node calls another exactly when the other is called by it, both addresses are
  in the heap, and no list holds an address twice.
\<close>

definition edgesInv :: "nat list list \<Rightarrow> nat list list \<Rightarrow> bool" where
  "edgesInv cs bs =
     (length cs = length bs
      \<and> (\<forall>a b. (a < length cs \<and> b \<in> set (cs ! a)) = (b < length bs \<and> a \<in> set (bs ! b)))
      \<and> (\<forall>a < length cs. distinct (cs ! a))
      \<and> (\<forall>b < length bs. distinct (bs ! b)))"

text \<open>The invariant of the state: the edges are as above and the registry points into the heap.\<close>

definition graphInv :: "State \<Rightarrow> bool" where
  "graphInv s =
     (edgesInv (map Calls (heap s)) (map CalledBy (heap s))
      \<and> (\<forall>k a. allNodes s k = Some a \<longrightarrow> a < length (heap s)))"

section \<open>Example compilation units\<close>

text \<open>
  \<^verbatim>\<open>package p; func A() { B() }; func B() {}\<close> in \<^verbatim>\<open>p/x.go\<close>.
\<close>

definition fileAB :: File where
  "fileAB =
     \<lparr>PkgName = ''p'',
      Decls = [FuncD (FuncDecl None ''A'' [] [OtherNode [CallExpr (Ident ''B'') []]]),
               FuncD (FuncDecl None ''B'' [] [])],
      Imports = []\<rparr>"

definition unitAB :: Unit where
  "unitAB = \<lparr>relPath = ''p/x.go'', dir = ''p'', parsed = Some fileAB\<rparr>"

text \<open>A file of the same directory that does not parse.\<close>

definition unitBroken :: Unit where
  "unitBroken = \<lparr>relPath = ''p/broken.go'', dir = ''p'', parsed = None\<rparr>"

text \<open>
  \<^verbatim>\<open>package p; import u "lib/util"; func A() { u.Do(); x.M(); f()() }\<close> in \<^verbatim>\<open>p/y.go\<close>.
\<close>

definition fileImport :: File where
  "fileImport =
     \<lparr>PkgName = ''p'',
      Decls = [GenDecl [ImportDecl],
               FuncD (FuncDecl None ''A'' []
                 [OtherNode [CallExpr (SelectorExpr (Ident ''u'') ''Do'') []],
                  OtherNode [CallExpr (SelectorExpr (Ident ''x'') ''M'') []],
                  OtherNode [CallExpr (CallExpr (Ident ''f'') []) []]])],
      Imports = [\<lparr>ImportName = Some ''u'', PathValue = CHR 0x22 # ''lib/util'' @ [CHR 0x22]\<rparr>]\<rparr>"

definition unitImport :: Unit where
  "unitImport = \<lparr>relPath = ''p/y.go'', dir = ''p'', parsed = Some fileImport\<rparr>"

text \<open>
  Two files \<^verbatim>\<open>a.go\<close> and \<^verbatim>\<open>b.go\<close> of package \<^verbatim>\<open>main\<close> in the root directory, each
  declaring \<^verbatim>\<open>func init() {}\<close>, which Go allows any number of times in a package.
\<close>

definition fileInit :: File where
  "fileInit = \<lparr>PkgName = ''main'', Decls = [FuncD (FuncDecl None ''init'' [] [])], Imports = []\<rparr>"

definition unitInitA :: Unit where
  "unitInitA = \<lparr>relPath = ''a.go'', dir = ''.'', parsed = Some fileInit\<rparr>"

definition unitInitB :: Unit where
  "unitInitB = \<lparr>relPath = ''b.go'', dir = ''.'', parsed = Some fileInit\<rparr>"

text \<open>
  \<^verbatim>\<open>package p; type Stack[T any] struct{}; func (s *Stack[T]) Push() {}; func Push() {}\<close>
  in \<^verbatim>\<open>p/s.go\<close>. The receiver type \<^verbatim>\<open>*Stack[T]\<close> is a star expression over an index
  expression, which has the children \<^verbatim>\<open>Stack\<close> and \<^verbatim>\<open>T\<close>.
\<close>

definition methodPush :: FuncDecl where
  "methodPush = FuncDecl (Some [StarExpr (OtherNode [Ident ''Stack'', Ident ''T''])]) ''Push'' [] []"

definition functionPush :: FuncDecl where
  "functionPush = FuncDecl None ''Push'' [] []"

definition fileGeneric :: File where
  "fileGeneric =
     \<lparr>PkgName = ''p'',
      Decls = [GenDecl [TypeSpec ''Stack'' [OtherNode [Ident ''T'', Ident ''any'']] (StructType [])],
               FuncD methodPush, FuncD functionPush],
      Imports = []\<rparr>"

definition unitGeneric :: Unit where
  "unitGeneric = \<lparr>relPath = ''p/s.go'', dir = ''p'', parsed = Some fileGeneric\<rparr>"

text \<open>
  \<^verbatim>\<open>package p; func A() {}; var x = B(); func B() int { return 0 }\<close> in \<^verbatim>\<open>p/v.go\<close>:
  the only call expression is in the initialiser of a package-level variable. In
  \<open>fileVarFirst\<close> the variable is declared before the two functions.
\<close>

definition fileVarAfter :: File where
  "fileVarAfter =
     \<lparr>PkgName = ''p'',
      Decls = [FuncD (FuncDecl None ''A'' [] []),
               GenDecl [ValueSpec [CallExpr (Ident ''B'') []]],
               FuncD (FuncDecl None ''B'' [Ident ''int''] [OtherNode [OtherNode []]])],
      Imports = []\<rparr>"

definition unitVarAfter :: Unit where
  "unitVarAfter = \<lparr>relPath = ''p/v.go'', dir = ''p'', parsed = Some fileVarAfter\<rparr>"

definition fileVarFirst :: File where
  "fileVarFirst =
     \<lparr>PkgName = ''p'',
      Decls = [GenDecl [ValueSpec [CallExpr (Ident ''B'') []]],
               FuncD (FuncDecl None ''A'' [] []),
               FuncD (FuncDecl None ''B'' [Ident ''int''] [OtherNode [OtherNode []]])],
      Imports = []\<rparr>"

definition unitVarFirst :: Unit where
  "unitVarFirst = \<lparr>relPath = ''p/v.go'', dir = ''p'', parsed = Some fileVarFirst\<rparr>"

text \<open>
  \<^verbatim>\<open>package p; func A() { B(); B(); A(); x.M() }; func B() {}\<close> in \<^verbatim>\<open>p/r.go\<close>:
  \<^verbatim>\<open>B\<close> is called twice, \<^verbatim>\<open>A\<close> once, and the key of \<^verbatim>\<open>x.M\<close>, which is counted once,
  has no node.
\<close>

definition fileRanked :: File where
  "fileRanked =
     \<lparr>PkgName = ''p'',
      Decls = [FuncD (FuncDecl None ''A'' []
                 [OtherNode [CallExpr (Ident ''B'') []],
                  OtherNode [CallExpr (Ident ''B'') []],
                  OtherNode [CallExpr (Ident ''A'') []],
                  OtherNode [CallExpr (SelectorExpr (Ident ''x'') ''M'') []]]),
               FuncD (FuncDecl None ''B'' [] [])],
      Imports = []\<rparr>"

definition unitRanked :: Unit where
  "unitRanked = \<lparr>relPath = ''p/r.go'', dir = ''p'', parsed = Some fileRanked\<rparr>"

text \<open>A map of call counts with a tie.\<close>

definition tiedCounts :: "string \<rightharpoonup> nat" where
  "tiedCounts = [''p:p:A'' \<mapsto> 1, ''p:p:B'' \<mapsto> 1]"


text \<open>
  \<^verbatim>\<open>package p; func A() { B() }; func B() { A() }\<close> in \<^verbatim>\<open>p/m.go\<close>: each function is
  called once.
\<close>

definition fileMutual :: File where
  "fileMutual =
     \<lparr>PkgName = ''p'',
      Decls = [FuncD (FuncDecl None ''A'' [] [OtherNode [CallExpr (Ident ''B'') []]]),
               FuncD (FuncDecl None ''B'' [] [OtherNode [CallExpr (Ident ''A'') []]])],
      Imports = []\<rparr>"

definition unitMutual :: Unit where
  "unitMutual = \<lparr>relPath = ''p/m.go'', dir = ''p'', parsed = Some fileMutual\<rparr>"

section \<open>Properties of the directory tree\<close>












section \<open>Call resolution\<close>

lemma resolveCallExpr_other:
  "(\<forall>f. fn \<noteq> Ident f) \<Longrightarrow> (\<forall>x sel. fn \<noteq> SelectorExpr (Ident x) sel)
     \<Longrightarrow> resolveCallExpr fn pk im = []"
  by (induction fn pk im rule: resolveCallExpr.induct) simp_all

lemma visitCallExpr_unresolved:
  "resolveCallExpr fn pk im = [] \<Longrightarrow> visitCallExpr pk im cf ck fn s = s"
  by (simp add: visitCallExpr_def)

text \<open>
  C5. The call resolver has three cases that resolve. A bare identifier \<open>f\<close> gives the key of
  \<open>f\<close> in the current package, whatever the import map holds. A selector \<open>x.sel\<close> over an
  identifier \<open>x\<close> gives the import path of \<open>x\<close> joined with \<open>sel\<close> when \<open>x\<close> is an import
  alias, and otherwise the current package's key with the text of \<open>x\<close> as receiver. These
  keys are never empty. Every other shape gives the empty key, and the walk does nothing
  for it.
\<close>

theorem resolveCallExpr_dispatch:
  "resolveCallExpr (Ident f) pk im = pk @ '':'' @ f
   \<and> (im x = Some p \<longrightarrow> resolveCallExpr (SelectorExpr (Ident x) sel) pk im = p @ '':'' @ sel)
   \<and> (im x = None \<longrightarrow>
        resolveCallExpr (SelectorExpr (Ident x) sel) pk im = pk @ '':'' @ x @ ''.'' @ sel)
   \<and> resolveCallExpr (Ident f) pk im \<noteq> []
   \<and> resolveCallExpr (SelectorExpr (Ident x) sel) pk im \<noteq> []
   \<and> ((\<forall>f. fn \<noteq> Ident f) \<and> (\<forall>x sel. fn \<noteq> SelectorExpr (Ident x) sel) \<longrightarrow>
        resolveCallExpr fn pk im = [] \<and> visitCallExpr pk im cf ck fn s = s)"
  by (auto simp: resolveCallExpr_other visitCallExpr_unresolved split: option.splits)

theorem resolveCallExpr_dispatch_witness:
  "resolveCallExpr (Ident ''f'') ''p:p'' (buildImportMap fileImport) = ''p:p:f''
   \<and> buildImportMap fileImport ''u'' = Some ''lib/util''
   \<and> resolveCallExpr (SelectorExpr (Ident ''u'') ''Do'') ''p:p'' (buildImportMap fileImport) = ''lib/util:Do''
   \<and> buildImportMap fileImport ''x'' = None
   \<and> resolveCallExpr (SelectorExpr (Ident ''x'') ''M'') ''p:p'' (buildImportMap fileImport) = ''p:p:x.M''
   \<and> resolveCallExpr (CallExpr (Ident ''f'') []) ''p:p'' (buildImportMap fileImport) = []
   \<and> resolveCallExpr (SelectorExpr (SelectorExpr (Ident ''a'') ''b'') ''M'') ''p:p'' (buildImportMap fileImport) = []"
proof -
  have u: "buildImportMap fileImport ''u'' = Some ''lib/util''" by code_simp
  have x: "buildImportMap fileImport ''x'' = None" by code_simp
  have o1: "(\<forall>f. CallExpr (Ident ''f'') [] \<noteq> Ident f) \<and> (\<forall>x sel. CallExpr (Ident ''f'') [] \<noteq> SelectorExpr (Ident x) sel)"
    by simp
  have o2: "(\<forall>f. SelectorExpr (SelectorExpr (Ident ''a'') ''b'') ''M'' \<noteq> Ident f)
      \<and> (\<forall>x sel. SelectorExpr (SelectorExpr (Ident ''a'') ''b'') ''M'' \<noteq> SelectorExpr (Ident x) sel)"
    by simp
  show ?thesis
    using u x o1 o2
      resolveCallExpr_dispatch [of "''f''" "''p:p''" "buildImportMap fileImport" "''u''" "''lib/util''" "''Do''"
        "CallExpr (Ident ''f'') []"]
      resolveCallExpr_dispatch [of "''f''" "''p:p''" "buildImportMap fileImport" "''x''" "''lib/util''" "''M''"
        "SelectorExpr (SelectorExpr (Ident ''a'') ''b'') ''M''"]
    by simp
qed

section \<open>Missing endpoints\<close>

text \<open>
  C6. When the caller key or the callee key is not in the registry, adding the edge changes
  nothing, and the visit of a call expression that resolves to such a pair leaves the heap,
  so every node's \<open>Calls\<close> and \<open>CalledBy\<close>, and the registry as they were.
\<close>

theorem addEdge_absent_noop:
  "allNodes s callerKey = None \<or> allNodes s calleeKey = None \<Longrightarrow>
     addEdge callerKey calleeKey s = s
     \<and> (resolveCallExpr fn pk im = calleeKey \<longrightarrow>
          heap (visitCallExpr pk im cf callerKey fn s) = heap s
          \<and> allNodes (visitCallExpr pk im cf callerKey fn s) = allNodes s)"
  by (auto simp: addEdge_def visitCallExpr_def Let_def split: option.splits)

theorem addEdge_absent_noop_witness:
  "allNodes (buildProjectStructure [unitImport] (initState ''r'')) ''lib/util:Do'' = None
   \<and> allNodes (buildProjectStructure [unitImport] (initState ''r'')) ''p:p:A'' = Some 2
   \<and> addEdge ''p:p:A'' ''lib/util:Do'' (buildProjectStructure [unitImport] (initState ''r''))
       = buildProjectStructure [unitImport] (initState ''r'')
   \<and> heap (visitCallExpr ''p:p'' (buildImportMap fileImport) (Some (FuncDecl None ''A'' [] [])) ''p:p:A''
         (SelectorExpr (Ident ''u'') ''Do'') (buildProjectStructure [unitImport] (initState ''r'')))
       = heap (buildProjectStructure [unitImport] (initState ''r''))"
proof -
  have a: "allNodes (buildProjectStructure [unitImport] (initState ''r'')) ''lib/util:Do'' = None"
    by code_simp
  have b: "allNodes (buildProjectStructure [unitImport] (initState ''r'')) ''p:p:A'' = Some 2"
    by code_simp
  have r: "resolveCallExpr (SelectorExpr (Ident ''u'') ''Do'') ''p:p'' (buildImportMap fileImport) = ''lib/util:Do''"
    by code_simp
  show ?thesis
    using a b r
      addEdge_absent_noop [of "buildProjectStructure [unitImport] (initState ''r'')" "''p:p:A''" "''lib/util:Do''"
        "SelectorExpr (Ident ''u'') ''Do''" "''p:p''" "buildImportMap fileImport" "Some (FuncDecl None ''A'' [] [])"]
    by simp
qed

section \<open>Files that do not parse\<close>

lemma processGoFile_unparsed: "parsed u = None \<Longrightarrow> processGoFile u s = s"
  by (simp add: processGoFile_def)

lemma analyzeFile_unparsed: "parsed u = None \<Longrightarrow> analyzeFile u s = s"
  by (simp add: analyzeFile_def)

text \<open>
  C8. A file that does not parse changes nothing, in extraction and in resolution: it adds no
  node, no registry entry, no count and no edge, and a batch that contains it ends in the
  state of the batch without it. The model's functions return a state on every input, as the
  source returns from \<^verbatim>\<open>processGoFile\<close> and returns nil to the walk.
\<close>

theorem parse_failure_isolated:
  "parsed u = None \<Longrightarrow>
     processGoFile u s = s
     \<and> analyzeFile u s = s
     \<and> buildProjectStructure (us @ u # vs) s = buildProjectStructure (us @ vs) s
     \<and> analyzeFunctionCalls (us @ u # vs) s = analyzeFunctionCalls (us @ vs) s
     \<and> analyze repoName (us @ u # vs) = analyze repoName (us @ vs)"
  by (simp add: processGoFile_unparsed analyzeFile_unparsed buildProjectStructure_def
      analyzeFunctionCalls_def analyze_def)

theorem parse_failure_isolated_witness:
  "parsed unitBroken = None
   \<and> analyze ''r'' ([unitAB] @ unitBroken # [unitVarAfter]) = analyze ''r'' ([unitAB] @ [unitVarAfter])
   \<and> allNodes (analyze ''r'' ([unitAB] @ unitBroken # [unitVarAfter])) ''p:p:B'' = Some 5"
proof -
  have p: "parsed unitBroken = None" by (simp add: unitBroken_def)
  have e: "allNodes (analyze ''r'' ([unitAB] @ [unitVarAfter])) ''p:p:B'' = Some 5" by code_simp
  show ?thesis
    using p e parse_failure_isolated [OF p, of _ "[unitAB]" "[unitVarAfter]" "''r''"] by simp
qed


section \<open>Registration\<close>

lemma processFunction_fields:
  "Name (processFunction d rel) = FuncName d"
  "FilePath (processFunction d rel) = rel"
  "Calls (processFunction d rel) = []"
  "CalledBy (processFunction d rel) = []"
  by (auto simp: processFunction_def newNode_def Let_def split: option.splits list.splits Node.splits)

lemma processFunction_Receiver:
  "Receiver (processFunction d rel) =
     (case Recv d of Some (t # ts) \<Rightarrow> getReceiverTypeName t | _ \<Rightarrow> [])"
  by (auto simp: processFunction_def newNode_def Let_def split: option.splits list.splits Node.splits)

lemma nodeName_buildFunctionKey:
  "(if Receiver (processFunction d rel) \<noteq> []
    then pk @ '':'' @ Receiver (processFunction d rel) @ ''.'' @ Name (processFunction d rel)
    else pk @ '':'' @ Name (processFunction d rel)) = buildFunctionKey pk d"
  by (simp add: processFunction_Receiver processFunction_fields buildFunctionKey_def Let_def
      split: option.splits list.splits)

lemma registerFunction_eq:
  assumes "pn < length (heap s)"
  shows "registerFunction pk pn rel d s =
     s\<lparr>heap := (heap s)[pn := (heap s ! pn)\<lparr>Children := Children (heap s ! pn) @ [length (heap s)]\<rparr>]
               @ [processFunction d rel],
       allNodes := (allNodes s)(buildFunctionKey pk d \<mapsto> length (heap s))\<rparr>"
  using assms nodeName_buildFunctionKey [of d rel pk]
  by (simp add: registerFunction_def alloc_def appendChild_def Let_def nth_append list_update_append
      split: if_splits)

lemma processType_fields:
  "Name (processType name ty rel) = name"
  "FilePath (processType name ty rel) = rel"
  "Calls (processType name ty rel) = []"
  "CalledBy (processType name ty rel) = []"
  by (simp_all add: processType_def newNode_def)

lemma registerType_eq:
  assumes "pn < length (heap s)"
  shows "registerType pk pn rel name ty s =
     s\<lparr>heap := (heap s)[pn := (heap s ! pn)\<lparr>Children := Children (heap s ! pn) @ [length (heap s)]\<rparr>]
               @ [processType name ty rel],
       allNodes := (allNodes s)(pk @ '':'' @ name \<mapsto> length (heap s))\<rparr>"
  using assms
  by (simp add: registerType_def alloc_def appendChild_def Let_def nth_append list_update_append
      processType_fields)

section \<open>Keys\<close>

lemma key_path_injective:
  assumes "CHR '':'' \<notin> set pkg" "CHR '':'' \<notin> set t1" "CHR '':'' \<notin> set t2"
    and eq: "path1 @ '':'' @ pkg @ '':'' @ t1 = path2 @ '':'' @ pkg @ '':'' @ t2"
  shows "path1 = path2 \<and> t1 = t2"
proof -
  let ?c = "\<lambda>xs. length (filter (\<lambda>c. c = CHR '':'') xs)"
  have z: "filter (\<lambda>c. c = CHR '':'') pkg = []" "filter (\<lambda>c. c = CHR '':'') t1 = []"
    "filter (\<lambda>c. c = CHR '':'') t2 = []"
    using assms(1-3) by (auto simp: filter_empty_conv)
  have noprefix: "us = []"
    if "us @ '':'' @ pkg @ '':'' @ ta = '':'' @ pkg @ '':'' @ tb"
      and "filter (\<lambda>c. c = CHR '':'') ta = []" "filter (\<lambda>c. c = CHR '':'') tb = []"
    for us ta tb
  proof (cases us)
    case Nil
    then show ?thesis .
  next
    case (Cons u us')
    with that(1) have "u = CHR '':''" by simp
    moreover from that(1) have "?c (us @ '':'' @ pkg @ '':'' @ ta) = ?c ('':'' @ pkg @ '':'' @ tb)"
      by simp
    then have "?c us = 0" using z(1) that(2,3) by simp
    ultimately show ?thesis using Cons by simp
  qed
  from eq obtain us where
    "(path1 = path2 @ us \<and> us @ '':'' @ pkg @ '':'' @ t1 = '':'' @ pkg @ '':'' @ t2)
     \<or> (path1 @ us = path2 \<and> '':'' @ pkg @ '':'' @ t1 = us @ '':'' @ pkg @ '':'' @ t2)"
    by (auto simp: append_eq_append_conv2)
  then have "path1 = path2"
  proof
    assume a: "path1 = path2 @ us \<and> us @ '':'' @ pkg @ '':'' @ t1 = '':'' @ pkg @ '':'' @ t2"
    then have "us = []" using noprefix [of us t1 t2] z by simp
    with a show ?thesis by simp
  next
    assume a: "path1 @ us = path2 \<and> '':'' @ pkg @ '':'' @ t1 = us @ '':'' @ pkg @ '':'' @ t2"
    then have "us = []" using noprefix [of us t2 t1] z by simp
    with a show ?thesis by simp
  qed
  with eq show ?thesis by simp
qed

lemma method_key_differs:
  "pk @ '':'' @ recv @ ''.'' @ name \<noteq> pk @ '':'' @ name"
proof
  assume "pk @ '':'' @ recv @ ''.'' @ name = pk @ '':'' @ name"
  then have "length (recv @ ''.'' @ name) = length name" by simp
  then show False by simp
qed

text \<open>
  C7. The method \<^verbatim>\<open>Push\<close> of the generic type \<^verbatim>\<open>Stack[T]\<close> and the function
  \<^verbatim>\<open>Push\<close> of the same package get the same key: the receiver type \<^verbatim>\<open>*Stack[T]\<close> is
  neither an identifier nor a star over an identifier, so the key has no receiver part. The
  registry then holds only the function, and no entry exists under \<^verbatim>\<open>Stack.Push\<close>.
\<close>

theorem generic_method_key_collides:
  "buildFunctionKey ''p:p'' methodPush = ''p:p:Push''
   \<and> buildFunctionKey ''p:p'' functionPush = ''p:p:Push''
   \<and> Type (processFunction methodPush ''p/s.go'') = ''method''
   \<and> Type (processFunction functionPush ''p/s.go'') = ''function''
   \<and> allNodes (buildProjectStructure [unitGeneric] (initState ''r'')) ''p:p:Push'' = Some 4
   \<and> Type (heap (buildProjectStructure [unitGeneric] (initState ''r'')) ! 4) = ''function''
   \<and> Type (heap (buildProjectStructure [unitGeneric] (initState ''r'')) ! 3) = ''method''
   \<and> allNodes (buildProjectStructure [unitGeneric] (initState ''r'')) ''p:p:Stack.Push'' = None"
  by code_simp

section \<open>Calls outside function bodies\<close>

lemma fold_unchanged: "(\<And>x s. x \<in> set xs \<Longrightarrow> f x s = s) \<Longrightarrow> fold f xs s = s"
  by (induction xs arbitrary: s) simp_all

lemma inspectNode_nil: "inspectNode pk im None ck n s = s"
  by (induction pk im "None :: FuncDecl option" ck n s rule: inspectNode.induct)
     (simp_all add: visitCallExpr_def fold_unchanged)

lemma inspectDecl_GenDecl_nil:
  "currentFunc w = None \<Longrightarrow> inspectDecl pk im (GenDecl specs) w = w"
proof -
  assume n: "currentFunc w = None"
  have "inspectSpec pk im None ck sp s = s" for ck sp s
    by (cases sp) (simp_all add: inspectNode_nil fold_unchanged)
  then show ?thesis using n by (simp add: fold_unchanged)
qed

text \<open>
  C9. In \<^verbatim>\<open>func A() {}; var x = B(); func B() int\<close> the call of \<^verbatim>\<open>B\<close> is in the
  initialiser of a package-level variable, outside every function body. The walk still
  counts it and adds the edge from \<^verbatim>\<open>A\<close> to \<^verbatim>\<open>B\<close>: \<^verbatim>\<open>currentFunc\<close> still points to
  \<^verbatim>\<open>A\<close>, the last function declaration the walk entered. With the variable declared
  before the functions the same call is skipped.
\<close>

theorem package_level_call_counted:
  "callCounts (analyze ''r'' [unitVarAfter]) ''p:p:B'' = Some 1
   \<and> allNodes (analyze ''r'' [unitVarAfter]) ''p:p:A'' = Some 2
   \<and> allNodes (analyze ''r'' [unitVarAfter]) ''p:p:B'' = Some 3
   \<and> map Calls (heap (analyze ''r'' [unitVarAfter])) = [[], [], [3], []]
   \<and> map CalledBy (heap (analyze ''r'' [unitVarAfter])) = [[], [], [], [2]]
   \<and> callCounts (analyze ''r'' [unitVarFirst]) ''p:p:B'' = None
   \<and> map Calls (heap (analyze ''r'' [unitVarFirst])) = [[], [], [], []]
   \<and> map CalledBy (heap (analyze ''r'' [unitVarFirst])) = [[], [], [], []]"
  by code_simp

section \<open>The call graph invariant\<close>

lemma map_update_unchanged: "f y = f (xs ! p) \<Longrightarrow> map f (xs[p := y]) = map f xs"
proof (cases "p < length xs")
  case True
  assume "f y = f (xs ! p)"
  with True have "(map f xs)[p := f y] = map f xs"
    by (simp add: list_update_same_conv)
  then show ?thesis by (simp add: map_update)
next
  case False
  then show ?thesis by (simp add: list_update_beyond)
qed

lemma edgesInv_alloc:
  assumes "edgesInv cs bs"
  shows "edgesInv (cs @ [[]]) (bs @ [[]])"
proof -
  from assms have len: "length cs = length bs"
    and sym: "\<And>a b. (a < length cs \<and> b \<in> set (cs ! a)) = (b < length bs \<and> a \<in> set (bs ! b))"
    and dc: "\<And>a. a < length cs \<Longrightarrow> distinct (cs ! a)"
    and db: "\<And>b. b < length bs \<Longrightarrow> distinct (bs ! b)"
    unfolding edgesInv_def by blast+
  have c: "(a < length (cs @ [[]]) \<and> b \<in> set ((cs @ [[]]) ! a)) = (a < length cs \<and> b \<in> set (cs ! a))"
    for a b and cs :: "nat list list"
    by (auto simp: nth_append less_Suc_eq)
  have "(a < length (cs @ [[]]) \<and> b \<in> set ((cs @ [[]]) ! a))
      = (b < length (bs @ [[]]) \<and> a \<in> set ((bs @ [[]]) ! b))" for a b
    using sym [of a b] c [of a cs b] c [of b bs a] by simp
  moreover have "distinct ((cs @ [[]]) ! a)" if "a < length (cs @ [[]])" for a
    using that dc by (auto simp: nth_append less_Suc_eq)
  moreover have "distinct ((bs @ [[]]) ! a)" if "a < length (bs @ [[]])" for a
    using that db by (auto simp: nth_append less_Suc_eq)
  ultimately show ?thesis using len unfolding edgesInv_def by simp
qed

lemma edgesInv_add:
  assumes "edgesInv cs bs" and a: "a < length cs" and b: "b < length cs" and new: "b \<notin> set (cs ! a)"
  shows "edgesInv (cs[a := cs ! a @ [b]]) (bs[b := bs ! b @ [a]])"
proof -
  from assms(1) have len: "length cs = length bs"
    and sym: "\<And>x y. (x < length cs \<and> y \<in> set (cs ! x)) = (y < length bs \<and> x \<in> set (bs ! y))"
    and dc: "\<And>x. x < length cs \<Longrightarrow> distinct (cs ! x)"
    and db: "\<And>y. y < length bs \<Longrightarrow> distinct (bs ! y)"
    unfolding edgesInv_def by blast+
  from sym [of a b] a b new len have new': "a \<notin> set (bs ! b)" by simp
  have c: "(x < length cs \<and> y \<in> set (cs[a := cs ! a @ [b]] ! x))
      = ((x < length cs \<and> y \<in> set (cs ! x)) \<or> (x = a \<and> y = b))" for x y
  proof (cases "x = a")
    case True
    with a show ?thesis by (simp add: nth_list_update) blast
  next
    case False
    then show ?thesis by (simp add: nth_list_update)
  qed
  have d: "(y < length bs \<and> x \<in> set (bs[b := bs ! b @ [a]] ! y))
      = ((y < length bs \<and> x \<in> set (bs ! y)) \<or> (x = a \<and> y = b))" for x y
  proof (cases "y = b")
    case True
    with b len show ?thesis by (simp add: nth_list_update) blast
  next
    case False
    then show ?thesis by (simp add: nth_list_update)
  qed
  have "(x < length (cs[a := cs ! a @ [b]]) \<and> y \<in> set (cs[a := cs ! a @ [b]] ! x))
      = (y < length (bs[b := bs ! b @ [a]]) \<and> x \<in> set (bs[b := bs ! b @ [a]] ! y))" for x y
    using c [of x y] d [of y x] sym [of x y] by simp
  moreover have "distinct (cs[a := cs ! a @ [b]] ! x)" if "x < length (cs[a := cs ! a @ [b]])" for x
    using that dc [of x] new by (cases "x = a") (simp_all add: nth_list_update)
  moreover have "distinct (bs[b := bs ! b @ [a]] ! y)" if "y < length (bs[b := bs ! b @ [a]])" for y
    using that db [of y] new' by (cases "y = b") (simp_all add: nth_list_update)
  ultimately show ?thesis using len unfolding edgesInv_def by simp
qed

lemma graphInv_init: "graphInv (initState repoName)"
  by (auto simp: graphInv_def edgesInv_def initState_def newNode_def)

lemma graphInv_alloc:
  assumes "graphInv s" "Calls n = []" "CalledBy n = []"
  shows "graphInv (snd (alloc n s))" and "fst (alloc n s) < length (heap (snd (alloc n s)))"
    and "allNodes (snd (alloc n s)) = allNodes s"
  using assms by (auto simp: graphInv_def alloc_def edgesInv_alloc less_Suc_eq dest: spec)

lemma graphInv_appendChild: "graphInv s \<Longrightarrow> graphInv (appendChild p c s)"
  by (simp add: graphInv_def appendChild_def map_update_unchanged)

lemma graphInv_register:
  "graphInv s \<Longrightarrow> a < length (heap s) \<Longrightarrow> graphInv (s\<lparr>allNodes := (allNodes s)(k \<mapsto> a)\<rparr>)"
  by (simp add: graphInv_def)

lemma graphInv_packages: "graphInv (s\<lparr>packages := p\<rparr>) = graphInv s"
  by (simp add: graphInv_def)

lemma graphInv_callCounts: "graphInv (s\<lparr>callCounts := c\<rparr>) = graphInv s"
  by (simp add: graphInv_def)

lemma newNode_edges: "Calls (newNode n t p) = []" "CalledBy (newNode n t p) = []"
  by (simp_all add: newNode_def)

lemma processFunction_edges:
  "Calls (processFunction d rel) = []" "CalledBy (processFunction d rel) = []"
  by (auto simp: processFunction_def newNode_def Let_def split: option.splits list.splits Node.splits)

lemma processType_edges:
  "Calls (processType name ty rel) = []" "CalledBy (processType name ty rel) = []"
  by (simp_all add: processType_def newNode_def)

lemma graphInv_alloc_register:
  assumes "graphInv s" "Calls n = []" "CalledBy n = []"
  shows "graphInv ((appendChild p (length (heap s)) (s\<lparr>heap := heap s @ [n]\<rparr>))\<lparr>allNodes :=
           (allNodes (appendChild p (length (heap s)) (s\<lparr>heap := heap s @ [n]\<rparr>)))(k \<mapsto> length (heap s))\<rparr>)"
proof -
  have "graphInv (snd (alloc n s))" using assms by (rule graphInv_alloc(1))
  then have "graphInv (s\<lparr>heap := heap s @ [n]\<rparr>)" by (simp add: alloc_def)
  then have g: "graphInv (appendChild p (length (heap s)) (s\<lparr>heap := heap s @ [n]\<rparr>))"
    by (rule graphInv_appendChild)
  have "length (heap s) < length (heap (appendChild p (length (heap s)) (s\<lparr>heap := heap s @ [n]\<rparr>)))"
    by (simp add: appendChild_def)
  with g show ?thesis by (rule graphInv_register)
qed

lemma graphInv_registerFunction:
  "graphInv s \<Longrightarrow> graphInv (registerFunction pk pn rel d s)"
  using graphInv_alloc_register [of s "processFunction d rel" pn]
  by (simp add: registerFunction_def alloc_def Let_def processFunction_edges)

lemma graphInv_registerType:
  "graphInv s \<Longrightarrow> graphInv (registerType pk pn rel name ty s)"
  using graphInv_alloc_register [of s "processType name ty rel" pn]
  by (simp add: registerType_def alloc_def Let_def processType_edges)

lemma fold_preserves:
  "(\<And>x s. x \<in> set xs \<Longrightarrow> P s \<Longrightarrow> P (f x s)) \<Longrightarrow> P s \<Longrightarrow> P (fold f xs s)"
  by (induction xs arbitrary: s) simp_all

lemma graphInv_processSpec: "graphInv s \<Longrightarrow> graphInv (processSpec pk pn rel sp s)"
  by (cases sp) (simp_all add: graphInv_registerType)

lemma graphInv_processDecl: "graphInv s \<Longrightarrow> graphInv (processDecl pk pn rel d s)"
  by (cases d) (simp_all add: graphInv_registerFunction fold_preserves graphInv_processSpec)

lemma graphInv_packageNodeOf:
  "graphInv s \<Longrightarrow> graphInv (snd (packageNodeOf pk name path s))"
proof -
  assume g: "graphInv s"
  show ?thesis
  proof (cases "packages s pk")
    case (Some a)
    with g show ?thesis by (simp add: packageNodeOf_def)
  next
    case None
    let ?n = "newNode name ''package'' path"
    have "graphInv (snd (alloc ?n s))"
      using g by (rule graphInv_alloc(1)) (simp_all add: newNode_edges)
    then have "graphInv (s\<lparr>heap := heap s @ [?n]\<rparr>)" by (simp add: alloc_def)
    then have "graphInv (s\<lparr>heap := heap s @ [?n], packages := (packages s)(pk \<mapsto> length (heap s))\<rparr>)"
      by (simp add: graphInv_def)
    then have "graphInv (appendChild codeRoot (length (heap s))
        (s\<lparr>heap := heap s @ [?n], packages := (packages s)(pk \<mapsto> length (heap s))\<rparr>))"
      by (rule graphInv_appendChild)
    with None show ?thesis by (simp add: packageNodeOf_def alloc_def Let_def)
  qed
qed

lemma graphInv_processGoFile: "graphInv s \<Longrightarrow> graphInv (processGoFile u s)"
proof (cases "parsed u")
  case None
  assume "graphInv s"
  with None show ?thesis by (simp add: processGoFile_def)
next
  case (Some fl)
  assume g: "graphInv s"
  let ?pk = "dir u @ '':'' @ PkgName fl"
  obtain pn s1 where p: "packageNodeOf ?pk (PkgName fl) (dir u) s = (pn, s1)"
    by (cases "packageNodeOf ?pk (PkgName fl) (dir u) s")
  from graphInv_packageNodeOf [OF g, of ?pk "PkgName fl" "dir u"] p have "graphInv s1" by simp
  then have "graphInv (fold (processDecl ?pk pn (relPath u)) (Decls fl) s1)"
    by (rule fold_preserves [rotated]) (rule graphInv_processDecl)
  with Some p show ?thesis by (simp add: processGoFile_def Let_def)
qed

section \<open>Adding edges\<close>

lemma addEdge_absent:
  "allNodes s k1 = None \<or> allNodes s k2 = None \<Longrightarrow> addEdge k1 k2 s = s"
  by (auto simp: addEdge_def split: option.splits)

lemma addEdge_present:
  "allNodes s k1 = Some a \<Longrightarrow> allNodes s k2 = Some b \<Longrightarrow> b \<in> set (Calls (heap s ! a))
     \<Longrightarrow> addEdge k1 k2 s = s"
  by (simp add: addEdge_def functionCallExists_def)

lemma addEdge_new:
  assumes "allNodes s k1 = Some a" "allNodes s k2 = Some b" "b \<notin> set (Calls (heap s ! a))"
    and a: "a < length (heap s)" and b: "b < length (heap s)"
  shows "map Calls (heap (addEdge k1 k2 s)) = (map Calls (heap s))[a := map Calls (heap s) ! a @ [b]]"
    and "map CalledBy (heap (addEdge k1 k2 s)) = (map CalledBy (heap s))[b := map CalledBy (heap s) ! b @ [a]]"
    and "allNodes (addEdge k1 k2 s) = allNodes s"
    and "Calls (heap (addEdge k1 k2 s) ! a) = Calls (heap s ! a) @ [b]"
    and "CalledBy (heap (addEdge k1 k2 s) ! b) = CalledBy (heap s ! b) @ [a]"
proof -
  let ?h = "heap s"
  let ?h1 = "?h[a := (?h ! a)\<lparr>Calls := Calls (?h ! a) @ [b]\<rparr>]"
  let ?h2 = "?h1[b := (?h1 ! b)\<lparr>CalledBy := CalledBy (?h1 ! b) @ [a]\<rparr>]"
  have e: "addEdge k1 k2 s = s\<lparr>heap := ?h2\<rparr>"
    using assms(1-3) by (simp add: addEdge_def functionCallExists_def Let_def)
  have cb1: "CalledBy (?h1 ! b) = CalledBy (?h ! b)"
    using a by (cases "a = b") (simp_all add: nth_list_update)
  have c1: "map Calls ?h1 = (map Calls ?h)[a := Calls (?h ! a) @ [b]]"
    by (simp add: map_update)
  have "map Calls ?h2 = map Calls ?h1"
    by (rule map_update_unchanged) simp
  with c1 a e show "map Calls (heap (addEdge k1 k2 s)) = (map Calls (heap s))[a := map Calls (heap s) ! a @ [b]]"
    by simp
  have b1: "map CalledBy ?h1 = map CalledBy ?h"
    by (rule map_update_unchanged) simp
  have "map CalledBy ?h2 = (map CalledBy ?h1)[b := CalledBy (?h1 ! b) @ [a]]"
    by (simp add: map_update)
  with b1 cb1 b e
  show "map CalledBy (heap (addEdge k1 k2 s)) = (map CalledBy (heap s))[b := map CalledBy (heap s) ! b @ [a]]"
    by simp
  show "allNodes (addEdge k1 k2 s) = allNodes s" by (simp add: e)
  show "Calls (heap (addEdge k1 k2 s) ! a) = Calls (heap s ! a) @ [b]"
    using a by (cases "a = b") (simp_all add: e nth_list_update)
  show "CalledBy (heap (addEdge k1 k2 s) ! b) = CalledBy (heap s ! b) @ [a]"
    using a b cb1 by (simp add: e nth_list_update)
qed

lemma graphInv_addEdge: "graphInv s \<Longrightarrow> graphInv (addEdge k1 k2 s)"
proof -
  assume g: "graphInv s"
  show ?thesis
  proof (cases "allNodes s k1")
    case None
    with g show ?thesis by (simp add: addEdge_absent)
  next
    case (Some a)
    note A = this
    show ?thesis
    proof (cases "allNodes s k2")
      case None
      with g show ?thesis by (simp add: addEdge_absent)
    next
      case (Some b)
      show ?thesis
      proof (cases "b \<in> set (Calls (heap s ! a))")
        case True
        with g A Some show ?thesis by (simp add: addEdge_present)
      next
        case False
        from g A Some have a: "a < length (heap s)" and b: "b < length (heap s)"
          by (auto simp: graphInv_def)
        from g have e: "edgesInv (map Calls (heap s)) (map CalledBy (heap s))"
          by (simp add: graphInv_def)
        have "edgesInv ((map Calls (heap s))[a := map Calls (heap s) ! a @ [b]])
                ((map CalledBy (heap s))[b := map CalledBy (heap s) ! b @ [a]])"
          using e a b False by (intro edgesInv_add) simp_all
        then have "edgesInv (map Calls (heap (addEdge k1 k2 s))) (map CalledBy (heap (addEdge k1 k2 s)))"
          by (simp add: addEdge_new(1,2) [OF A Some False a b])
        moreover have "length (heap (addEdge k1 k2 s)) = length (heap s)"
          using arg_cong [OF addEdge_new(1) [OF A Some False a b], of length] by simp
        ultimately show ?thesis
          using g by (simp add: graphInv_def addEdge_new(3) [OF A Some False a b])
      qed
    qed
  qed
qed

lemma graphInv_visitCallExpr: "graphInv s \<Longrightarrow> graphInv (visitCallExpr pk im cf ck fn s)"
  by (simp add: visitCallExpr_def Let_def graphInv_addEdge graphInv_callCounts)

lemma graphInv_inspectNode: "graphInv s \<Longrightarrow> graphInv (inspectNode pk im cf ck n s)"
proof (induction pk im cf ck n s rule: inspectNode.induct)
  case (3 pk im cf ck fn args s)
  have "graphInv (inspectNode pk im cf ck fn (visitCallExpr pk im cf ck fn s))"
    using "3.prems" by (intro "3.IH"(1) graphInv_visitCallExpr)
  then show ?case
    using "3.IH"(2) by (simp add: fold_preserves)
qed (simp_all add: fold_preserves)

lemma graphInv_inspectSpec: "graphInv s \<Longrightarrow> graphInv (inspectSpec pk im cf ck sp s)"
  by (cases sp) (simp_all add: graphInv_inspectNode fold_preserves)

lemma graphInv_inspectDecl: "graphInv (st w) \<Longrightarrow> graphInv (st (inspectDecl pk im d w))"
  by (cases d) (simp_all add: Let_def graphInv_inspectNode graphInv_inspectSpec fold_preserves)

lemma graphInv_analyzeFile: "graphInv s \<Longrightarrow> graphInv (analyzeFile u s)"
proof (cases "parsed u")
  case None
  assume "graphInv s"
  with None show ?thesis by (simp add: analyzeFile_def)
next
  case (Some fl)
  assume g: "graphInv s"
  have "graphInv (st (fold (inspectDecl pk im) ds w))" if "graphInv (st w)" for pk im ds w
    using that by (induction ds arbitrary: w) (simp_all add: graphInv_inspectDecl)
  with g Some show ?thesis by (simp add: analyzeFile_def Let_def)
qed

lemma graphInv_runOps: "graphInv s \<Longrightarrow> graphInv (runOps ops s)"
  unfolding runOps_def
proof (rule fold_preserves)
  fix x s assume "graphInv s"
  then show "graphInv (step x s)"
    by (cases x) (simp_all add: graphInv_processGoFile graphInv_analyzeFile)
qed

lemma graphInv_reachable: "graphInv (runOps ops (initState repoName))"
  by (rule graphInv_runOps) (rule graphInv_init)

lemma analyze_runOps:
  "analyze repoName units =
     runOps (map Extract units
             @ map Resolve (if repoName = ''vendor'' \<or> repoName = ''.git'' then [] else units))
       (initState repoName)"
proof -
  have "step \<circ> Extract = processGoFile" "step \<circ> Resolve = analyzeFile"
    by (rule ext, simp)+
  then show ?thesis
    by (simp add: analyze_def runOps_def analyzeFunctionCalls_def buildProjectStructure_def fold_map)
qed

lemma addEdge_twice:
  assumes "graphInv s"
  shows "addEdge k1 k2 (addEdge k1 k2 s) = addEdge k1 k2 s"
proof (cases "allNodes s k1")
  case None
  then show ?thesis by (simp add: addEdge_absent)
next
  case (Some a)
  note A = this
  show ?thesis
  proof (cases "allNodes s k2")
    case None
    then show ?thesis by (simp add: addEdge_absent)
  next
    case (Some b)
    show ?thesis
    proof (cases "b \<in> set (Calls (heap s ! a))")
      case True
      with A Some show ?thesis by (simp add: addEdge_present)
    next
      case False
      from assms A Some have a: "a < length (heap s)" and b: "b < length (heap s)"
        by (auto simp: graphInv_def)
      note new = addEdge_new [OF A Some False a b]
      have "b \<in> set (Calls (heap (addEdge k1 k2 s) ! a))" by (simp add: new(4))
      moreover have "allNodes (addEdge k1 k2 s) k1 = Some a" "allNodes (addEdge k1 k2 s) k2 = Some b"
        using A Some by (simp_all add: new(3))
      ultimately show ?thesis by (simp add: addEdge_present)
    qed
  qed
qed

lemma addEdge_callCounts:
  "addEdge k1 k2 (s\<lparr>callCounts := c\<rparr>) = (addEdge k1 k2 s)\<lparr>callCounts := c\<rparr>"
  by (simp add: addEdge_def Let_def split: option.splits)

lemma visitCallExpr_twice_heap:
  assumes "graphInv s"
  shows "heap (visitCallExpr pk im cf ck fn (visitCallExpr pk im cf ck fn s))
       = heap (visitCallExpr pk im cf ck fn s)"
proof (cases "cf = None \<or> resolveCallExpr fn pk im = []")
  case True
  then show ?thesis by (auto simp: visitCallExpr_def)
next
  case False
  let ?k = "resolveCallExpr fn pk im"
  let ?t = "addEdge ck ?k s"
  from False obtain d where cf: "cf = Some d" and k: "?k \<noteq> []" by auto
  have v: "visitCallExpr pk im cf ck fn s' = (addEdge ck ?k s')\<lparr>callCounts := increment ?k (callCounts s')\<rparr>"
    for s'
    using cf k by (simp add: visitCallExpr_def Let_def addEdge_callCounts)
  have "addEdge ck ?k ?t = ?t" using assms by (rule addEdge_twice)
  then show ?thesis
    by (simp add: v addEdge_callCounts)
qed

lemma distinct_count_list: "distinct xs \<Longrightarrow> x \<in> set xs \<Longrightarrow> count_list xs x = 1"
  by (induction xs) auto

text \<open>
  C3. In a state reached by extraction and resolution steps, with both keys registered,
  adding the edge a second time changes nothing: the callee occurs exactly once in the
  caller's \<open>Calls\<close>, and the callee's \<open>CalledBy\<close> is one longer than before the two additions
  when the edge was new (and as long as before when the edge was there already). Visiting a
  call expression a second time does not change the heap either.
\<close>

theorem addEdge_idempotent:
  assumes "s = runOps ops (initState repoName)"
    and "allNodes s callerKey = Some a" and "allNodes s calleeKey = Some b"
  shows "addEdge callerKey calleeKey (addEdge callerKey calleeKey s) = addEdge callerKey calleeKey s
     \<and> count_list (Calls (heap (addEdge callerKey calleeKey (addEdge callerKey calleeKey s)) ! a)) b = 1
     \<and> length (CalledBy (heap (addEdge callerKey calleeKey (addEdge callerKey calleeKey s)) ! b))
         = length (CalledBy (heap s ! b)) + (if b \<in> set (Calls (heap s ! a)) then 0 else 1)
     \<and> heap (visitCallExpr pk im cf callerKey fn (visitCallExpr pk im cf callerKey fn s))
         = heap (visitCallExpr pk im cf callerKey fn s)"
proof -
  have g: "graphInv s" unfolding assms(1) by (rule graphInv_reachable)
  then have a: "a < length (heap s)" and b: "b < length (heap s)"
    using assms(2,3) by (auto simp: graphInv_def)
  from g a have dist: "distinct (Calls (heap s ! a))"
    by (auto simp: graphInv_def edgesInv_def dest!: spec [of _ a])
  have twice: "addEdge callerKey calleeKey (addEdge callerKey calleeKey s) = addEdge callerKey calleeKey s"
    using g by (rule addEdge_twice)
  have visit: "heap (visitCallExpr pk im cf callerKey fn (visitCallExpr pk im cf callerKey fn s))
         = heap (visitCallExpr pk im cf callerKey fn s)"
    using g by (rule visitCallExpr_twice_heap)
  show ?thesis
  proof (cases "b \<in> set (Calls (heap s ! a))")
    case True
    then have "addEdge callerKey calleeKey s = s"
      using assms(2,3) by (simp add: addEdge_present)
    with True dist twice visit show ?thesis by (simp add: distinct_count_list)
  next
    case False
    note new = addEdge_new [OF assms(2,3) False a b]
    from False have "count_list (Calls (heap s ! a) @ [b]) b = 1" by simp
    with False twice visit show ?thesis by (simp add: new(4,5))
  qed
qed

theorem addEdge_idempotent_witness:
  "allNodes (runOps [Extract unitAB] (initState ''r'')) ''p:p:A'' = Some 2
   \<and> allNodes (runOps [Extract unitAB] (initState ''r'')) ''p:p:B'' = Some 3
   \<and> CalledBy (heap (runOps [Extract unitAB] (initState ''r'')) ! 3) = []
   \<and> Calls (heap (addEdge ''p:p:A'' ''p:p:B'' (addEdge ''p:p:A'' ''p:p:B''
         (runOps [Extract unitAB] (initState ''r''))))  ! 2) = [3]
   \<and> CalledBy (heap (addEdge ''p:p:A'' ''p:p:B'' (addEdge ''p:p:A'' ''p:p:B''
         (runOps [Extract unitAB] (initState ''r''))))  ! 3) = [2]
   \<and> addEdge ''p:p:A'' ''p:p:B'' (addEdge ''p:p:A'' ''p:p:B'' (runOps [Extract unitAB] (initState ''r'')))
       = addEdge ''p:p:A'' ''p:p:B'' (runOps [Extract unitAB] (initState ''r''))
   \<and> length (CalledBy (heap (addEdge ''p:p:A'' ''p:p:B'' (addEdge ''p:p:A'' ''p:p:B''
         (runOps [Extract unitAB] (initState ''r''))))  ! 3)) = 0 + 1"
proof -
  let ?s = "runOps [Extract unitAB] (initState ''r'')"
  have ka: "allNodes ?s ''p:p:A'' = Some 2" by code_simp
  have kb: "allNodes ?s ''p:p:B'' = Some 3" by code_simp
  have c0: "Calls (heap ?s ! 2) = []" by code_simp
  have b0: "CalledBy (heap ?s ! 3) = []" by code_simp
  have c2: "Calls (heap (addEdge ''p:p:A'' ''p:p:B'' (addEdge ''p:p:A'' ''p:p:B'' ?s)) ! 2) = [3]"
    by code_simp
  have b2: "CalledBy (heap (addEdge ''p:p:A'' ''p:p:B'' (addEdge ''p:p:A'' ''p:p:B'' ?s)) ! 3) = [2]"
    by code_simp
  show ?thesis
    using ka kb c0 b0 c2 b2
      addEdge_idempotent [OF refl ka kb, of "''p:p''" Map.empty None "Ident ''B''"]
    by simp
qed

text \<open>
  C4. After any sequence of extraction and resolution steps from the initial state, every
  node that a node of the heap calls has that node in its \<open>CalledBy\<close>, and every node in a
  node's \<open>CalledBy\<close> calls that node; the addresses in both lists are addresses of the heap.
\<close>

theorem calls_calledBy_symmetric:
  assumes "s = runOps ops (initState repoName)" and "a < length (heap s)"
  shows "(\<forall>b \<in> set (Calls (heap s ! a)). b < length (heap s) \<and> a \<in> set (CalledBy (heap s ! b)))
     \<and> (\<forall>b \<in> set (CalledBy (heap s ! a)). b < length (heap s) \<and> a \<in> set (Calls (heap s ! b)))"
proof -
  have "graphInv s" unfolding assms(1) by (rule graphInv_reachable)
  then have sym: "(x < length (heap s) \<and> y \<in> set (map Calls (heap s) ! x))
       = (y < length (heap s) \<and> x \<in> set (map CalledBy (heap s) ! y))" for x y
    unfolding graphInv_def edgesInv_def by simp
  have 1: "b < length (heap s) \<and> a \<in> set (CalledBy (heap s ! b))" if "b \<in> set (Calls (heap s ! a))" for b
    using sym [of a b] that assms(2) by auto
  have 2: "b < length (heap s) \<and> a \<in> set (Calls (heap s ! b))" if "b \<in> set (CalledBy (heap s ! a))" for b
    using sym [of b a] that assms(2) by auto
  from 1 2 show ?thesis by blast
qed

theorem calls_calledBy_symmetric_witness:
  "(2::nat) < length (heap (runOps [Extract unitAB, Resolve unitAB, Resolve unitAB] (initState ''r'')))
   \<and> Calls (heap (runOps [Extract unitAB, Resolve unitAB, Resolve unitAB] (initState ''r'')) ! 2) = [3]
   \<and> CalledBy (heap (runOps [Extract unitAB, Resolve unitAB, Resolve unitAB] (initState ''r'')) ! 3) = [2]
   \<and> (3::nat) < length (heap (runOps [Extract unitAB, Resolve unitAB, Resolve unitAB] (initState ''r'')))
   \<and> 2 \<in> set (CalledBy (heap (runOps [Extract unitAB, Resolve unitAB, Resolve unitAB] (initState ''r'')) ! 3))"
proof -
  let ?s = "runOps [Extract unitAB, Resolve unitAB, Resolve unitAB] (initState ''r'')"
  have len: "length (heap ?s) = 4" by code_simp
  then have h: "2 < length (heap ?s)" by simp
  have c: "Calls (heap ?s ! 2) = [3]" by code_simp
  have b: "CalledBy (heap ?s ! 3) = [2]" by code_simp
  show ?thesis
    using len c b calls_calledBy_symmetric [OF refl h] by simp
qed

section \<open>The last registration wins\<close>

lemma keyOf_function: "keyOf pk rel (FuncDeclaration d) = buildFunctionKey pk d"
  using nodeName_buildFunctionKey [of d rel pk] by (simp add: Let_def)

lemma processDecl_asDecl:
  assumes "pn < length (heap s)"
  shows "processDecl pk pn rel (asDecl D) s =
     s\<lparr>heap := (heap s)[pn := (heap s ! pn)\<lparr>Children := Children (heap s ! pn) @ [length (heap s)]\<rparr>]
               @ [nodeOf D rel],
       allNodes := (allNodes s)(keyOf pk rel D \<mapsto> length (heap s))\<rparr>"
proof (cases D)
  case (FuncDeclaration d)
  then show ?thesis
    using registerFunction_eq [OF assms, of pk rel d] by (simp add: keyOf_function del: keyOf.simps)
next
  case (TypeDeclaration name tparams ty)
  then show ?thesis
    using registerType_eq [OF assms, of pk rel name ty] by (simp add: processType_fields)
qed

text \<open>
  C1, as the code has it. The registry is written by a plain map assignment, so the last
  declaration registered under a key is the entry, whether the two declarations are
  functions, methods or types: after two registrations under one key the key points to the
  node of the second declaration. The node of the first stays in the heap and both nodes
  are children of the package node; when the registry pointed into the heap before, no key
  points to the node of the first declaration afterwards.
\<close>

theorem registry_last_wins:
  assumes "pn < length (heap s)"
    and "keyOf pk rel1 D1 = keyOf pk rel2 D2"
    and "s1 = processDecl pk pn rel1 (asDecl D1) s"
    and "s2 = processDecl pk pn rel2 (asDecl D2) s1"
  shows "allNodes s1 (keyOf pk rel1 D1) = Some (length (heap s))
     \<and> heap s1 ! length (heap s) = nodeOf D1 rel1
     \<and> allNodes s2 (keyOf pk rel1 D1) = Some (length (heap s) + 1)
     \<and> heap s2 ! (length (heap s) + 1) = nodeOf D2 rel2
     \<and> heap s2 ! length (heap s) = nodeOf D1 rel1
     \<and> Children (heap s2 ! pn) = Children (heap s ! pn) @ [length (heap s), length (heap s) + 1]
     \<and> ((\<forall>k a. allNodes s k = Some a \<longrightarrow> a < length (heap s)) \<longrightarrow>
          (\<forall>k. allNodes s2 k \<noteq> Some (length (heap s))))"
proof -
  let ?n = "length (heap s)"
  let ?h1 = "(heap s)[pn := (heap s ! pn)\<lparr>Children := Children (heap s ! pn) @ [?n]\<rparr>]"
  have e1: "s1 = s\<lparr>heap := ?h1 @ [nodeOf D1 rel1], allNodes := (allNodes s)(keyOf pk rel1 D1 \<mapsto> ?n)\<rparr>"
    unfolding assms(3) by (rule processDecl_asDecl [OF assms(1)])
  have len1: "length (heap s1) = ?n + 1" by (simp add: e1)
  have pn1: "pn < length (heap s1)" using assms(1) len1 by simp
  have at1: "heap s1 ! pn = (heap s ! pn)\<lparr>Children := Children (heap s ! pn) @ [?n]\<rparr>"
    using assms(1) by (simp add: e1 nth_append)
  let ?h2 = "(heap s1)[pn := (heap s1 ! pn)\<lparr>Children := Children (heap s1 ! pn) @ [length (heap s1)]\<rparr>]"
  have e2: "s2 = s1\<lparr>heap := ?h2 @ [nodeOf D2 rel2], allNodes := (allNodes s1)(keyOf pk rel2 D2 \<mapsto> length (heap s1))\<rparr>"
    unfolding assms(4) by (rule processDecl_asDecl [OF pn1])
  have a: "allNodes s1 (keyOf pk rel1 D1) = Some ?n" by (simp add: e1)
  have b: "heap s1 ! ?n = nodeOf D1 rel1" by (simp add: e1 nth_append)
  have c: "allNodes s2 (keyOf pk rel1 D1) = Some (?n + 1)"
    by (simp add: e2 assms(2) len1)
  have d: "heap s2 ! (?n + 1) = nodeOf D2 rel2"
    using len1 by (simp add: e2 nth_append)
  have e: "heap s2 ! ?n = nodeOf D1 rel1"
    using len1 assms(1) b by (simp add: e2 nth_append)
  have f: "Children (heap s2 ! pn) = Children (heap s ! pn) @ [?n, ?n + 1]"
    using pn1 len1 at1 by (simp add: e2 nth_append)
  have g: "allNodes s2 k \<noteq> Some ?n" if r: "\<forall>k a. allNodes s k = Some a \<longrightarrow> a < ?n" for k
  proof
    assume k: "allNodes s2 k = Some ?n"
    have "k \<noteq> keyOf pk rel2 D2" using k len1 by (auto simp: e2)
    with k assms(2) have "allNodes s k = Some ?n" by (simp add: e2 e1)
    with r show False by blast
  qed
  from a b c d e f g show ?thesis by blast
qed

theorem registry_last_wins_witness:
  "(1::nat) < length (heap (buildProjectStructure [unitAB] (initState ''r'')))
   \<and> keyOf ''p:p'' ''p/a.go'' (FuncDeclaration methodPush) = ''p:p:Push''
   \<and> keyOf ''p:p'' ''p/b.go'' (TypeDeclaration ''Push'' [] (StructType [])) = ''p:p:Push''
   \<and> allNodes (processDecl ''p:p'' 1 ''p/a.go'' (asDecl (FuncDeclaration methodPush))
         (buildProjectStructure [unitAB] (initState ''r''))) ''p:p:Push'' = Some 4
   \<and> allNodes (processDecl ''p:p'' 1 ''p/b.go'' (asDecl (TypeDeclaration ''Push'' [] (StructType [])))
         (processDecl ''p:p'' 1 ''p/a.go'' (asDecl (FuncDeclaration methodPush))
           (buildProjectStructure [unitAB] (initState ''r'')))) ''p:p:Push'' = Some 5
   \<and> heap (processDecl ''p:p'' 1 ''p/b.go'' (asDecl (TypeDeclaration ''Push'' [] (StructType [])))
         (processDecl ''p:p'' 1 ''p/a.go'' (asDecl (FuncDeclaration methodPush))
           (buildProjectStructure [unitAB] (initState ''r'')))) ! 5
       = newNode ''Push'' ''struct'' ''p/b.go''
   \<and> Children (heap (processDecl ''p:p'' 1 ''p/b.go'' (asDecl (TypeDeclaration ''Push'' [] (StructType [])))
         (processDecl ''p:p'' 1 ''p/a.go'' (asDecl (FuncDeclaration methodPush))
           (buildProjectStructure [unitAB] (initState ''r'')))) ! 1) = [2, 3, 4, 5]
   \<and> (\<forall>k. allNodes (processDecl ''p:p'' 1 ''p/b.go'' (asDecl (TypeDeclaration ''Push'' [] (StructType [])))
         (processDecl ''p:p'' 1 ''p/a.go'' (asDecl (FuncDeclaration methodPush))
           (buildProjectStructure [unitAB] (initState ''r'')))) k \<noteq> Some 4)"
proof -
  let ?s = "buildProjectStructure [unitAB] (initState ''r'')"
  let ?D1 = "FuncDeclaration methodPush"
  let ?D2 = "TypeDeclaration ''Push'' [] (StructType [])"
  have len: "length (heap ?s) = 4" by code_simp
  have h: "1 < length (heap ?s)" using len by simp
  have k1: "keyOf ''p:p'' ''p/a.go'' ?D1 = ''p:p:Push''" by code_simp
  have k2: "keyOf ''p:p'' ''p/b.go'' ?D2 = ''p:p:Push''" by code_simp
  have k: "keyOf ''p:p'' ''p/a.go'' ?D1 = keyOf ''p:p'' ''p/b.go'' ?D2" using k1 k2 by simp
  have n2: "nodeOf ?D2 ''p/b.go'' = newNode ''Push'' ''struct'' ''p/b.go''"
    by (simp add: processType_def)
  have ch: "Children (heap ?s ! 1) = [2, 3]" by code_simp
  have "?s = runOps [Extract unitAB] (initState ''r'')"
    by (simp add: runOps_def buildProjectStructure_def)
  then have "graphInv ?s" by (simp add: graphInv_reachable)
  then have r: "\<forall>k a. allNodes ?s k = Some a \<longrightarrow> a < length (heap ?s)"
    by (simp add: graphInv_def)
  show ?thesis
    using len k1 k2 n2 ch r registry_last_wins [OF h k refl refl]
    by (simp add: newNode_def)
qed

theorem registry_first_wins_counterexample:
  "allNodes (buildProjectStructure [unitInitA] (initState ''r'')) ''.:main:init'' = Some 2
   \<and> FilePath (heap (buildProjectStructure [unitInitA] (initState ''r'')) ! 2) = ''a.go''
   \<and> allNodes (buildProjectStructure [unitInitA, unitInitB] (initState ''r'')) ''.:main:init'' = Some 3
   \<and> FilePath (heap (buildProjectStructure [unitInitA, unitInitB] (initState ''r'')) ! 3) = ''b.go''
   \<and> FilePath (heap (buildProjectStructure [unitInitA, unitInitB] (initState ''r'')) ! 2) = ''a.go''"
  by code_simp

section \<open>The ranking\<close>

lemma mset_insertLess: "mset (insertLess x ys) = add_mset x (mset ys)"
  by (induction ys) simp_all

lemma set_insertLess: "set (insertLess x ys) = insert x (set ys)"
  by (induction ys) auto

lemma sorted_insertLess:
  "sorted_wrt (\<lambda>x y. \<not> lessCount y x) ys \<Longrightarrow> sorted_wrt (\<lambda>x y. \<not> lessCount y x) (insertLess x ys)"
  by (induction ys) (auto simp: set_insertLess lessCount_def)

lemma insertionSort_foldl:
  "mset (foldl (\<lambda>sorted x. insertLess x sorted) acc xs) = mset acc + mset xs"
  "sorted_wrt (\<lambda>x y. \<not> lessCount y x) acc \<Longrightarrow>
     sorted_wrt (\<lambda>x y. \<not> lessCount y x) (foldl (\<lambda>sorted x. insertLess x sorted) acc xs)"
  by (induction xs arbitrary: acc) (simp_all add: mset_insertLess sorted_insertLess)

lemma insertionSort_contract: "sortSliceContract insertionSort"
  by (simp add: sortSliceContract_def insertionSort_def insertionSort_foldl)

lemma set_rangeMap: "set (rangeMap order m) = {(k, c). k \<in> set order \<and> m k = Some c}"
  by (induction order) (auto simp: rangeMap_def List.map_filter_simps split: option.splits)

lemma fst_rangeMap: "map fst (rangeMap order m) = filter (\<lambda>k. m k \<noteq> None) order"
  by (induction order) (auto simp: rangeMap_def List.map_filter_simps split: option.splits)

lemma rangeMap_iteration:
  assumes "iterationOf order m"
  shows "set (rangeMap order m) = {(k, c). m k = Some c}" and "distinct (map fst (rangeMap order m))"
  using assms by (auto simp: set_rangeMap fst_rangeMap iterationOf_def)

lemma descending_unique:
  fixes xs ys :: "(string \<times> nat) list"
  assumes "set xs = set ys" "distinct xs" "distinct ys" "inj_on snd (set xs)"
    and "sorted_wrt (\<lambda>x y. snd y \<le> snd x) xs" "sorted_wrt (\<lambda>x y. snd y \<le> snd x) ys"
  shows "xs = ys"
proof -
  have inj: "inj_on snd (set xs \<union> set ys)" using assms(1,4) by simp
  have s: "sorted (rev (map snd zs))" if "sorted_wrt (\<lambda>x y. snd y \<le> snd x) zs"
    for zs :: "(string \<times> nat) list"
    using that by (simp add: sorted_wrt_rev sorted_wrt_map)
  have d: "distinct (rev (map snd zs))" if "distinct zs" "inj_on snd (set zs)"
    for zs :: "(string \<times> nat) list"
    using that by (simp add: distinct_map)
  have "rev (map snd xs) = rev (map snd ys)"
  proof (rule sorted_distinct_set_unique)
    show "sorted (rev (map snd xs))" using assms(5) by (rule s)
    show "sorted (rev (map snd ys))" using assms(6) by (rule s)
    show "distinct (rev (map snd xs))" using assms(2,4) by (rule d)
    show "distinct (rev (map snd ys))" using assms(1,3,4) by (intro d) simp_all
    show "set (rev (map snd xs)) = set (rev (map snd ys))" using assms(1) by simp
  qed
  then have "map snd xs = map snd ys" by simp
  with inj show ?thesis by (simp add: inj_on_map_eq_map)
qed

lemma mostCalled_props:
  assumes "sortSliceContract srt" "iterationOf order counts"
  shows "set (mostCalled srt order counts) = {(k, c). counts k = Some c}"
    and "distinct (map fst (mostCalled srt order counts))"
    and "sorted_wrt (\<lambda>x y. snd y \<le> snd x) (mostCalled srt order counts)"
proof -
  let ?xs = "rangeMap order counts"
  from assms(1) have m: "mset (srt ?xs) = mset ?xs"
    and s: "sorted_wrt (\<lambda>x y. \<not> lessCount y x) (srt ?xs)"
    by (simp_all add: sortSliceContract_def)
  from m have "set (srt ?xs) = set ?xs" by (rule mset_eq_setD)
  then show "set (mostCalled srt order counts) = {(k, c). counts k = Some c}"
    using rangeMap_iteration(1) [OF assms(2)] by (simp add: mostCalled_def)
  from m have "mset (map fst (srt ?xs)) = mset (map fst ?xs)" by (metis mset_map)
  then have "distinct (map fst (srt ?xs)) = distinct (map fst ?xs)" by (rule mset_eq_imp_distinct_iff)
  then show "distinct (map fst (mostCalled srt order counts))"
    using rangeMap_iteration(2) [OF assms(2)] by (simp add: mostCalled_def)
  have "(\<lambda>x y. \<not> lessCount y x) = (\<lambda>x y :: string \<times> nat. snd y \<le> snd x)"
    by (auto simp: lessCount_def fun_eq_iff)
  with s show "sorted_wrt (\<lambda>x y. snd y \<le> snd x) (mostCalled srt order counts)"
    by (simp add: mostCalled_def)
qed

lemma tableRow_None_iff: "(tableRow s e = None) = (allNodes s (fst e) = None)"
  by (simp add: tableRow_def Let_def split: option.splits)

lemma tableRow_count: "tableRow s e = Some r \<Longrightarrow> snd (snd (snd r)) = snd e"
  by (auto simp: tableRow_def Let_def split: option.splits)

lemma map_filter_filter:
  assumes "\<And>x. (f x = None) = (\<not> P x)"
  shows "List.map_filter f xs = List.map_filter f (filter P xs)"
proof (induction xs)
  case Nil
  show ?case by simp
next
  case (Cons x xs)
  then show ?case
    using assms [of x] by (cases "f x") (simp_all add: List.map_filter_simps)
qed

lemma map_Some_map_filter:
  assumes "\<And>x. (f x = None) = (\<not> P x)"
  shows "map Some (List.map_filter f xs) = map f (filter P xs)"
proof (induction xs)
  case Nil
  show ?case by (simp add: List.map_filter_simps)
next
  case (Cons x xs)
  then show ?case
    using assms [of x] by (cases "f x") (simp_all add: List.map_filter_simps)
qed

lemma tableRow_registered: "(tableRow s e = None) = (\<not> fst e \<in> dom (allNodes s))"
  by (simp add: tableRow_None_iff domIff)

lemma set_map_filter: "set (List.map_filter f xs) = {r. \<exists>x \<in> set xs. f x = Some r}"
  by (induction xs) (auto simp: List.map_filter_simps split: option.splits)

lemma sorted_map_filter:
  assumes "sorted_wrt (\<lambda>x y. k y \<le> k x) xs" and "\<And>x r. f x = Some r \<Longrightarrow> g r = (k x :: nat)"
  shows "sorted_wrt (\<lambda>r r'. g r' \<le> g r) (List.map_filter f xs)"
  using assms(1)
proof (induction xs)
  case Nil
  then show ?case by (simp add: List.map_filter_simps)
next
  case (Cons x xs)
  then have tl: "sorted_wrt (\<lambda>r r'. g r' \<le> g r) (List.map_filter f xs)" by simp
  show ?case
  proof (cases "f x")
    case None
    with tl show ?thesis by (simp add: List.map_filter_simps)
  next
    case (Some r)
    have "g r' \<le> g r" if "r' \<in> set (List.map_filter f xs)" for r'
    proof -
      from that obtain y where y: "y \<in> set xs" "f y = Some r'" by (auto simp: set_map_filter)
      with Cons.prems have "k y \<le> k x" by simp
      with assms(2) [OF Some] assms(2) [OF y(2)] show ?thesis by simp
    qed
    with tl Some show ?thesis by (simp add: List.map_filter_simps)
  qed
qed

lemma registered_entries:
  assumes "sortSliceContract srt" "iterationOf order (callCounts s)"
  shows "set (filter (\<lambda>e. fst e \<in> dom (allNodes s)) (mostCalled srt order (callCounts s)))
           = {(k, c). callCounts s k = Some c \<and> allNodes s k \<noteq> None}"
    and "distinct (filter (\<lambda>e. fst e \<in> dom (allNodes s)) (mostCalled srt order (callCounts s)))"
    and "sorted_wrt (\<lambda>x y. snd y \<le> snd x)
           (filter (\<lambda>e. fst e \<in> dom (allNodes s)) (mostCalled srt order (callCounts s)))"
proof -
  note p = mostCalled_props [OF assms]
  show "set (filter (\<lambda>e. fst e \<in> dom (allNodes s)) (mostCalled srt order (callCounts s)))
           = {(k, c). callCounts s k = Some c \<and> allNodes s k \<noteq> None}"
    by (auto simp: p(1))
  from p(2) have "distinct (mostCalled srt order (callCounts s))" by (simp add: distinct_map)
  then show "distinct (filter (\<lambda>e. fst e \<in> dom (allNodes s)) (mostCalled srt order (callCounts s)))"
    by simp
  from p(3) show "sorted_wrt (\<lambda>x y. snd y \<le> snd x)
           (filter (\<lambda>e. fst e \<in> dom (allNodes s)) (mostCalled srt order (callCounts s)))"
    by (rule sorted_wrt_filter)
qed

lemma callCounts_addEdge: "callCounts (addEdge k1 k2 s) = callCounts s"
  by (simp add: addEdge_def Let_def split: option.splits)

lemma callCounts_visitCallExpr:
  "callCounts (visitCallExpr pk im cf ck fn s) =
     (if cf = None \<or> resolveCallExpr fn pk im = [] then callCounts s
      else increment (resolveCallExpr fn pk im) (callCounts s))"
  by (simp add: visitCallExpr_def Let_def callCounts_addEdge)

text \<open>
  C2, as the code has it. For a fixed registry and a fixed map of call counts, whatever the
  iteration order of the map and whatever sort keeps the contract of \<^verbatim>\<open>sort.Slice\<close>, the
  table is in descending order of call count and holds exactly the rows of the counted keys
  that have a node, each once. When no two of these keys have the same count, every run
  writes the same table. Nothing fixes the order of rows with equal counts.
\<close>

theorem ranking_descending:
  assumes "sortSliceContract srt" and "iterationOf order (callCounts s)"
  shows "sorted_wrt (\<lambda>r r'. snd (snd (snd r')) \<le> snd (snd (snd r)))
           (addMostCalledFunctionsToOutput srt order s)
     \<and> mset (map Some (addMostCalledFunctionsToOutput srt order s))
         = image_mset (tableRow s)
             (mset_set {(k, c). callCounts s k = Some c \<and> allNodes s k \<noteq> None})
     \<and> (inj_on (callCounts s) {k. callCounts s k \<noteq> None \<and> allNodes s k \<noteq> None} \<longrightarrow>
          (\<forall>srt' order'. sortSliceContract srt' \<and> iterationOf order' (callCounts s) \<longrightarrow>
             addMostCalledFunctionsToOutput srt' order' s = addMostCalledFunctionsToOutput srt order s))"
proof -
  let ?reg = "\<lambda>e. fst e \<in> dom (allNodes s)"
  let ?xs = "mostCalled srt order (callCounts s)"
  let ?E = "{(k, c). callCounts s k = Some c \<and> allNodes s k \<noteq> None}"
  note p = mostCalled_props [OF assms]
  note q = registered_entries [OF assms]
  have 1: "sorted_wrt (\<lambda>r r'. snd (snd (snd r')) \<le> snd (snd (snd r)))
             (addMostCalledFunctionsToOutput srt order s)"
    unfolding addMostCalledFunctionsToOutput_def
    using p(3) by (rule sorted_map_filter) (rule tableRow_count)
  have "mset (filter ?reg ?xs) = mset_set (set (filter ?reg ?xs))"
    using q(2) by (rule mset_set_set [symmetric])
  then have "mset (filter ?reg ?xs) = mset_set ?E" by (simp only: q(1))
  then have "mset (map (tableRow s) (filter ?reg ?xs)) = image_mset (tableRow s) (mset_set ?E)"
    by (metis mset_map)
  then have 2: "mset (map Some (addMostCalledFunctionsToOutput srt order s))
         = image_mset (tableRow s) (mset_set ?E)"
    by (simp only: addMostCalledFunctionsToOutput_def
        map_Some_map_filter [of "tableRow s" ?reg, OF tableRow_registered])
  have 3: "addMostCalledFunctionsToOutput srt' order' s = addMostCalledFunctionsToOutput srt order s"
    if inj: "inj_on (callCounts s) {k. callCounts s k \<noteq> None \<and> allNodes s k \<noteq> None}"
      and c: "sortSliceContract srt'" and i: "iterationOf order' (callCounts s)"
    for srt' order'
  proof -
    let ?ys = "mostCalled srt' order' (callCounts s)"
    note q' = registered_entries [OF c i]
    have "filter ?reg ?ys = filter ?reg ?xs"
    proof (rule descending_unique)
      show "set (filter ?reg ?ys) = set (filter ?reg ?xs)" by (simp only: q(1) q'(1))
      show "distinct (filter ?reg ?ys)" by (rule q'(2))
      show "distinct (filter ?reg ?xs)" by (rule q(2))
      show "inj_on snd (set (filter ?reg ?ys))"
        unfolding q'(1)
      proof (rule inj_onI)
        fix x y :: "string \<times> nat"
        assume x: "x \<in> ?E" and y: "y \<in> ?E" and e: "snd x = snd y"
        then have "callCounts s (fst x) = callCounts s (fst y)"
          and "fst x \<in> {k. callCounts s k \<noteq> None \<and> allNodes s k \<noteq> None}"
          and "fst y \<in> {k. callCounts s k \<noteq> None \<and> allNodes s k \<noteq> None}"
          by auto
        with inj have "fst x = fst y" by (rule inj_onD)
        with e show "x = y" by (simp add: prod_eq_iff)
      qed
      show "sorted_wrt (\<lambda>x y. snd y \<le> snd x) (filter ?reg ?ys)" by (rule q'(3))
      show "sorted_wrt (\<lambda>x y. snd y \<le> snd x) (filter ?reg ?xs)" by (rule q(3))
    qed
    then have "List.map_filter (tableRow s) (filter ?reg ?ys) = List.map_filter (tableRow s) (filter ?reg ?xs)"
      by simp
    then show ?thesis
      unfolding addMostCalledFunctionsToOutput_def
      by (simp only: map_filter_filter [of "tableRow s" ?reg ?ys, OF tableRow_registered, symmetric]
          map_filter_filter [of "tableRow s" ?reg ?xs, OF tableRow_registered, symmetric])
  qed
  from 1 2 3 show ?thesis by blast
qed

theorem ranking_descending_witness:
  "sortSliceContract insertionSort
   \<and> callCounts (analyze ''r'' [unitRanked]) = [''p:p:B'' \<mapsto> 2, ''p:p:A'' \<mapsto> 1, ''p:p:x.M'' \<mapsto> 1]
   \<and> iterationOf [''p:p:x.M'', ''p:p:A'', ''p:p:B''] (callCounts (analyze ''r'' [unitRanked]))
   \<and> iterationOf [''p:p:A'', ''p:p:x.M'', ''p:p:B''] (callCounts (analyze ''r'' [unitRanked]))
   \<and> allNodes (analyze ''r'' [unitRanked]) ''p:p:x.M'' = None
   \<and> inj_on (callCounts (analyze ''r'' [unitRanked]))
        {k. callCounts (analyze ''r'' [unitRanked]) k \<noteq> None \<and> allNodes (analyze ''r'' [unitRanked]) k \<noteq> None}
   \<and> mostCalled insertionSort [''p:p:x.M'', ''p:p:A'', ''p:p:B''] (callCounts (analyze ''r'' [unitRanked]))
       = [(''p:p:B'', 2), (''p:p:x.M'', 1), (''p:p:A'', 1)]
   \<and> addMostCalledFunctionsToOutput insertionSort [''p:p:x.M'', ''p:p:A'', ''p:p:B''] (analyze ''r'' [unitRanked])
       = [(''B'', ''function'', ''p/r.go'', 2), (''A'', ''function'', ''p/r.go'', 1)]
   \<and> addMostCalledFunctionsToOutput insertionSort [''p:p:A'', ''p:p:x.M'', ''p:p:B''] (analyze ''r'' [unitRanked])
       = [(''B'', ''function'', ''p/r.go'', 2), (''A'', ''function'', ''p/r.go'', 1)]
   \<and> sorted_wrt (\<lambda>r r'. snd (snd (snd r')) \<le> snd (snd (snd r)))
        (addMostCalledFunctionsToOutput insertionSort [''p:p:x.M'', ''p:p:A'', ''p:p:B''] (analyze ''r'' [unitRanked]))"
proof -
  let ?s = "analyze ''r'' [unitRanked]"
  have cc: "callCounts ?s = [''p:p:B'' \<mapsto> 2, ''p:p:A'' \<mapsto> 1, ''p:p:x.M'' \<mapsto> 1]"
    by (simp add: analyze_def analyzeFunctionCalls_def buildProjectStructure_def processGoFile_def
      analyzeFile_def unitRanked_def fileRanked_def initState_def packageNodeOf_def alloc_def
      appendChild_def registerFunction_def processFunction_def newNode_def codeRoot_def Let_def
      buildImportMap_def buildFunctionKey_def callCounts_visitCallExpr increment_def
      numeral_2_eq_2)
  have i1: "iterationOf [''p:p:x.M'', ''p:p:A'', ''p:p:B''] (callCounts ?s)"
    unfolding cc by (auto simp: iterationOf_def)
  have i2: "iterationOf [''p:p:A'', ''p:p:x.M'', ''p:p:B''] (callCounts ?s)"
    unfolding cc by (auto simp: iterationOf_def)
  have m: "allNodes ?s ''p:p:x.M'' = None" by code_simp
  have inj: "inj_on (callCounts ?s) {k. callCounts ?s k \<noteq> None \<and> allNodes ?s k \<noteq> None}"
    unfolding cc using m by (auto simp: inj_on_def split: if_splits)
  have sl: "mostCalled insertionSort [''p:p:x.M'', ''p:p:A'', ''p:p:B''] (callCounts ?s)
       = [(''p:p:B'', 2), (''p:p:x.M'', 1), (''p:p:A'', 1)]"
    by code_simp
  have t1: "addMostCalledFunctionsToOutput insertionSort [''p:p:x.M'', ''p:p:A'', ''p:p:B''] ?s
       = [(''B'', ''function'', ''p/r.go'', 2), (''A'', ''function'', ''p/r.go'', 1)]"
    by code_simp
  from ranking_descending [OF insertionSort_contract i1]
  have srt: "sorted_wrt (\<lambda>r r'. snd (snd (snd r')) \<le> snd (snd (snd r)))
        (addMostCalledFunctionsToOutput insertionSort [''p:p:x.M'', ''p:p:A'', ''p:p:B''] ?s)"
    and det: "inj_on (callCounts ?s) {k. callCounts ?s k \<noteq> None \<and> allNodes ?s k \<noteq> None} \<longrightarrow>
          (\<forall>srt' order'. sortSliceContract srt' \<and> iterationOf order' (callCounts ?s) \<longrightarrow>
             addMostCalledFunctionsToOutput srt' order' ?s
               = addMostCalledFunctionsToOutput insertionSort [''p:p:x.M'', ''p:p:A'', ''p:p:B''] ?s)"
    by blast+
  from det inj insertionSort_contract i2
  have t2: "addMostCalledFunctionsToOutput insertionSort [''p:p:A'', ''p:p:x.M'', ''p:p:B''] ?s
       = addMostCalledFunctionsToOutput insertionSort [''p:p:x.M'', ''p:p:A'', ''p:p:B''] ?s"
    by blast
  from insertionSort_contract cc i1 i2 m inj sl t1 t2 srt show ?thesis by (simp only: simp_thms)
qed

theorem ranking_tie_counterexample:
  "callCounts (analyze ''r'' [unitMutual]) = tiedCounts
   \<and> sortSliceContract insertionSort
   \<and> iterationOf [''p:p:A'', ''p:p:B''] tiedCounts
   \<and> iterationOf [''p:p:B'', ''p:p:A''] tiedCounts
   \<and> mostCalled insertionSort [''p:p:A'', ''p:p:B''] tiedCounts = [(''p:p:A'', 1), (''p:p:B'', 1)]
   \<and> mostCalled insertionSort [''p:p:B'', ''p:p:A''] tiedCounts = [(''p:p:B'', 1), (''p:p:A'', 1)]
   \<and> addMostCalledFunctionsToOutput insertionSort [''p:p:A'', ''p:p:B''] (analyze ''r'' [unitMutual])
       = [(''A'', ''function'', ''p/m.go'', 1), (''B'', ''function'', ''p/m.go'', 1)]
   \<and> addMostCalledFunctionsToOutput insertionSort [''p:p:B'', ''p:p:A''] (analyze ''r'' [unitMutual])
       = [(''B'', ''function'', ''p/m.go'', 1), (''A'', ''function'', ''p/m.go'', 1)]"
proof -
  have "callCounts (analyze ''r'' [unitMutual]) = [''p:p:B'' \<mapsto> 1, ''p:p:A'' \<mapsto> 1]"
    by (simp add: analyze_def analyzeFunctionCalls_def buildProjectStructure_def processGoFile_def
      analyzeFile_def unitMutual_def fileMutual_def initState_def packageNodeOf_def alloc_def
      appendChild_def registerFunction_def processFunction_def newNode_def codeRoot_def Let_def
      buildImportMap_def buildFunctionKey_def visitCallExpr_def addEdge_def increment_def
      functionCallExists_def)
  also have "\<dots> = tiedCounts"
    by (auto simp: tiedCounts_def fun_eq_iff)
  finally have cc: "callCounts (analyze ''r'' [unitMutual]) = tiedCounts" .
  have i1: "iterationOf [''p:p:A'', ''p:p:B''] tiedCounts"
    by (auto simp: iterationOf_def tiedCounts_def)
  have i2: "iterationOf [''p:p:B'', ''p:p:A''] tiedCounts"
    by (auto simp: iterationOf_def tiedCounts_def)
  have m1: "mostCalled insertionSort [''p:p:A'', ''p:p:B''] tiedCounts = [(''p:p:A'', 1), (''p:p:B'', 1)]"
    by code_simp
  have m2: "mostCalled insertionSort [''p:p:B'', ''p:p:A''] tiedCounts = [(''p:p:B'', 1), (''p:p:A'', 1)]"
    by code_simp
  have o1: "addMostCalledFunctionsToOutput insertionSort [''p:p:A'', ''p:p:B''] (analyze ''r'' [unitMutual])
       = [(''A'', ''function'', ''p/m.go'', 1), (''B'', ''function'', ''p/m.go'', 1)]"
    by code_simp
  have o2: "addMostCalledFunctionsToOutput insertionSort [''p:p:B'', ''p:p:A''] (analyze ''r'' [unitMutual])
       = [(''B'', ''function'', ''p/m.go'', 1), (''A'', ''function'', ''p/m.go'', 1)]"
    by code_simp
  from cc insertionSort_contract i1 i2 m1 m2 o1 o2 show ?thesis by blast
qed


end
